theory Spec2Isabelle
  imports Main "HOL-Library.Word" "HOL-Library.Signed_Division"
begin

section \<open>Page replacement policies of replaceAlgos.c\<close>

text \<open>
  The program simulates three page replacement policies (LRU, FIFO, Clock) over an
  array of page references. The development below embeds the C functions
  \<^verbatim>\<open>arrayContains\<close>, \<^verbatim>\<open>getIndex\<close>, \<^verbatim>\<open>LRU\<close>, \<^verbatim>\<open>FIFO\<close>, \<^verbatim>\<open>Clock\<close> and the averaging of
  \<^verbatim>\<open>main\<close>. The sampler \<^verbatim>\<open>normal\<close> computes in \<^verbatim>\<open>double\<close> with the C library's \<^verbatim>\<open>sqrt\<close>,
  \<^verbatim>\<open>log\<close> and \<^verbatim>\<open>cos\<close> and is not embedded.

  Conventions of the embedding:
  \<^item> a C \<^verbatim>\<open>int\<close> that holds a page identifier, a use bit or an accumulated sum is a
    32-bit word, read as two's complement by \<open>sint\<close>; only equality is ever applied to
    page identifiers and use bits;
  \<^item> a C \<^verbatim>\<open>int\<close> that counts (\<^verbatim>\<open>i\<close>, \<^verbatim>\<open>j\<close>, \<^verbatim>\<open>c\<close>, \<^verbatim>\<open>size\<close>, \<^verbatim>\<open>fifoIndex\<close>, \<^verbatim>\<open>faults\<close>, \<^verbatim>\<open>wss\<close>)
    is a natural number: each of them starts at 0, moves by one, and is bounded by the
    loop bound or by \<^verbatim>\<open>wss\<close>, so none can wrap around; the one place where a count can
    be negative, the result of \<^verbatim>\<open>getIndex\<close>, is an \<open>int\<close>;
  \<^item> an array is a list; every access through a computed index is checked, and an
    access out of range, or a read of a local that was never assigned, ends the run
    with an error value instead of a state.
\<close>

type_synonym cint = "32 word"

definition INT_MIN :: cint where
  "INT_MIN = - 2147483648"

definition TRACES :: nat where
  "TRACES = 1000"

datatype error = OutOfBounds | Uninitialised

subsection \<open>The two lookup primitives\<close>

text \<open>
  \<^verbatim>\<open>arrayContains(array, size, value)\<close> scans \<^verbatim>\<open>array[0 .. size-1]\<close> from the left and
  returns at the first match. Every call of the program passes the declared length of
  the array as \<^verbatim>\<open>size\<close>, so the scan never leaves the array; the model, given a larger
  \<^verbatim>\<open>size\<close>, stops at the end of the list. The same holds for \<^verbatim>\<open>getIndex\<close>.
\<close>

fun arrayContains :: "cint list \<Rightarrow> nat \<Rightarrow> cint \<Rightarrow> bool" where
  "arrayContains [] size_c v = False"
| "arrayContains (a # array) 0 v = False"
| "arrayContains (a # array) (Suc size_c) v =
     (if v = a then True else arrayContains array size_c v)"

text \<open>
  \<^verbatim>\<open>getIndex(array, size, value)\<close> returns the first index below \<^verbatim>\<open>size\<close> that holds
  \<^verbatim>\<open>value\<close>, and \<open>-1\<close> when there is none. The helper carries the loop variable \<^verbatim>\<open>i\<close>.
\<close>

fun getIndex_from :: "nat \<Rightarrow> cint list \<Rightarrow> nat \<Rightarrow> cint \<Rightarrow> int" where
  "getIndex_from i [] size_c v = - 1"
| "getIndex_from i (a # array) size_c v =
     (if i < size_c then (if a = v then int i else getIndex_from (Suc i) array size_c v)
      else - 1)"

definition getIndex :: "cint list \<Rightarrow> nat \<Rightarrow> cint \<Rightarrow> int" where
  "getIndex array size_c v = getIndex_from 0 array size_c v"

subsection \<open>State of a policy run\<close>

text \<open>
  The locals that live across iterations of the main loop of a policy. \<^verbatim>\<open>set\<close> and
  \<^verbatim>\<open>size\<close> are renamed, since HOL has constants of these names. FIFO adds the cursor
  \<^verbatim>\<open>fifoIndex\<close>, Clock adds the array \<^verbatim>\<open>secondChance\<close>.
\<close>

record frame_state =
  set_frame :: "cint list"
  size_c :: nat
  faults :: nat

record fifo_state = frame_state +
  fifoIndex :: nat

record clock_state = fifo_state +
  secondChance :: "cint list"

subsection \<open>FIFO\<close>

definition FIFO_init :: "nat \<Rightarrow> fifo_state" where
  "FIFO_init wss =
     \<lparr>set_frame = replicate wss INT_MIN, size_c = 0, faults = 0, fifoIndex = 0\<rparr>"

text \<open>One iteration of the main loop of \<^verbatim>\<open>FIFO\<close>, at the reference \<open>x = data[i]\<close>.\<close>

definition FIFO_step :: "nat \<Rightarrow> cint \<Rightarrow> fifo_state \<Rightarrow> error + fifo_state" where
  "FIFO_step wss x s =
     (if \<not> arrayContains (set_frame s) wss x then
        (if size_c s \<noteq> wss then
           (if size_c s < length (set_frame s)
            then Inr (s\<lparr>set_frame := (set_frame s)[size_c s := x], size_c := size_c s + 1\<rparr>)
            else Inl OutOfBounds)
         else
           (if fifoIndex s < length (set_frame s)
            then Inr (s\<lparr>set_frame := (set_frame s)[fifoIndex s := x],
                       faults := faults s + 1,
                       fifoIndex := (if fifoIndex s + 1 = wss then 0 else fifoIndex s + 1)\<rparr>)
            else Inl OutOfBounds))
      else Inr s)"

text \<open>
  \<open>FIFO_iter wss data n\<close> is the state after the iterations \<open>i = 0, ..., n - 1\<close> of the
  main loop. The loop bound of the source is the macro \<^verbatim>\<open>TRACES\<close>; \<open>FIFO_faults\<close> takes it
  as a parameter, and \<open>FIFO\<close> is the function of the source.
\<close>

primrec FIFO_iter :: "nat \<Rightarrow> cint list \<Rightarrow> nat \<Rightarrow> error + fifo_state" where
  "FIFO_iter wss data 0 = Inr (FIFO_init wss)"
| "FIFO_iter wss data (Suc i) =
     (case FIFO_iter wss data i of
        Inl e \<Rightarrow> Inl e
      | Inr s \<Rightarrow> if i < length data then FIFO_step wss (data ! i) s else Inl OutOfBounds)"

definition FIFO_faults :: "nat \<Rightarrow> nat \<Rightarrow> cint list \<Rightarrow> error + nat" where
  "FIFO_faults n wss data =
     (case FIFO_iter wss data n of Inl e \<Rightarrow> Inl e | Inr s \<Rightarrow> Inr (faults s))"

definition FIFO :: "nat \<Rightarrow> cint list \<Rightarrow> error + nat" where
  "FIFO wss data = FIFO_faults TRACES wss data"

subsection \<open>Clock\<close>

definition Clock_init :: "nat \<Rightarrow> clock_state" where
  "Clock_init wss =
     \<lparr>set_frame = replicate wss INT_MIN, size_c = 0, faults = 0, fifoIndex = 0,
      secondChance = replicate wss 0\<rparr>"

text \<open>
  The eviction sweep, the \<^verbatim>\<open>while\<close> loop of \<^verbatim>\<open>Clock\<close>: as long as the slot under the hand
  has its bit set, clear the bit and advance the hand, wrapping at \<^verbatim>\<open>wss\<close>. The last
  argument counts the iterations made so far; it is not a variable of the source, and
  no result of the policy depends on it.
\<close>

function Clock_sweep :: "nat \<Rightarrow> cint list \<Rightarrow> nat \<Rightarrow> nat \<Rightarrow> error + (cint list \<times> nat \<times> nat)" where
  "Clock_sweep wss sc k n =
     (if k < length sc then
        (if sc ! k \<noteq> 0
         then Clock_sweep wss (sc[k := 0]) (if k + 1 = wss then 0 else k + 1) (n + 1)
         else Inr (sc, k, n))
      else Inl OutOfBounds)"
  by pat_completeness auto

termination Clock_sweep
proof (relation "measure (\<lambda>(wss, sc, k, n). card {i. i < length sc \<and> sc ! i \<noteq> 0})")
  show "wf (measure (\<lambda>(wss, sc, k, n). card {i. i < length sc \<and> sc ! i \<noteq> 0}))"
    by simp
next
  fix wss :: nat and sc :: "cint list" and k n :: nat
  assume k: "k < length sc" and set: "sc ! k \<noteq> 0"
  have "{i. i < length (sc[k := 0]) \<and> sc[k := 0] ! i \<noteq> 0}
          \<subset> {i. i < length sc \<and> sc ! i \<noteq> 0}"
    using k set by (auto simp: nth_list_update)
  then have "card {i. i < length (sc[k := 0]) \<and> sc[k := 0] ! i \<noteq> 0}
          < card {i. i < length sc \<and> sc ! i \<noteq> 0}"
    by (intro psubset_card_mono) simp_all
  then show "((wss, sc[k := 0], if k + 1 = wss then 0 else k + 1, n + 1), wss, sc, k, n)
          \<in> measure (\<lambda>(wss, sc, k, n). card {i. i < length sc \<and> sc ! i \<noteq> 0})"
    by simp
qed

text \<open>One iteration of the main loop of \<^verbatim>\<open>Clock\<close>, at the reference \<open>x = data[i]\<close>.\<close>

definition Clock_step :: "nat \<Rightarrow> cint \<Rightarrow> clock_state \<Rightarrow> error + clock_state" where
  "Clock_step wss x s =
     (if \<not> arrayContains (set_frame s) wss x then
        (if size_c s \<noteq> wss then
           (if size_c s < length (set_frame s)
            then Inr (s\<lparr>set_frame := (set_frame s)[size_c s := x], size_c := size_c s + 1\<rparr>)
            else Inl OutOfBounds)
         else
           (case Clock_sweep wss (secondChance s) (fifoIndex s) 0 of
              Inl e \<Rightarrow> Inl e
            | Inr (sc, k, n) \<Rightarrow>
                if k < length (set_frame s)
                then Inr (s\<lparr>set_frame := (set_frame s)[k := x],
                           faults := faults s + 1,
                           fifoIndex := (if k + 1 = wss then 0 else k + 1),
                           secondChance := sc\<rparr>)
                else Inl OutOfBounds))
      else
        (let k = getIndex (set_frame s) wss x in
         if 0 \<le> k \<and> k < int (length (secondChance s))
         then Inr (s\<lparr>secondChance := (secondChance s)[nat k := 1]\<rparr>)
         else Inl OutOfBounds))"

primrec Clock_iter :: "nat \<Rightarrow> cint list \<Rightarrow> nat \<Rightarrow> error + clock_state" where
  "Clock_iter wss data 0 = Inr (Clock_init wss)"
| "Clock_iter wss data (Suc i) =
     (case Clock_iter wss data i of
        Inl e \<Rightarrow> Inl e
      | Inr s \<Rightarrow> if i < length data then Clock_step wss (data ! i) s else Inl OutOfBounds)"

definition Clock_faults :: "nat \<Rightarrow> nat \<Rightarrow> cint list \<Rightarrow> error + nat" where
  "Clock_faults n wss data =
     (case Clock_iter wss data n of Inl e \<Rightarrow> Inl e | Inr s \<Rightarrow> Inr (faults s))"

definition Clock :: "nat \<Rightarrow> cint list \<Rightarrow> error + nat" where
  "Clock wss data = Clock_faults TRACES wss data"

subsection \<open>LRU\<close>

definition LRU_init :: "nat \<Rightarrow> frame_state" where
  "LRU_init wss = \<lparr>set_frame = replicate wss INT_MIN, size_c = 0, faults = 0\<rparr>"

text \<open>
  The backward scan of \<^verbatim>\<open>LRU\<close>, \<^verbatim>\<open>for( j = i, c = 0; j >= 0; j-- )\<close>. One pass of its body
  at index \<open>j\<close> either leaves the loop through \<^verbatim>\<open>break\<close> with \<^verbatim>\<open>lru\<close> assigned, or goes on
  with the recency array \<^verbatim>\<open>ru\<close> and its fill count \<^verbatim>\<open>c\<close>.
\<close>

datatype scan_result = Break cint | Continue "cint list" nat | Failed error

definition LRU_scan_body ::
  "cint list \<Rightarrow> nat \<Rightarrow> cint list \<Rightarrow> cint list \<Rightarrow> nat \<Rightarrow> nat \<Rightarrow> scan_result" where
  "LRU_scan_body set_f wss data ru c j =
     (if j < length data then
        (if arrayContains set_f wss (data ! j) then
           (if \<not> arrayContains ru wss (data ! j) then
              (if c < length ru then
                 (if c + 1 = wss then Break (data ! j)
                  else Continue (ru[c := data ! j]) (c + 1))
               else Failed OutOfBounds)
            else (if c = wss then Break (data ! j) else Continue ru c))
         else Continue ru c)
      else Failed OutOfBounds)"

text \<open>
  The scan from \<open>j\<close> down to 0. \<open>Inr (Some v)\<close>: the loop was left through \<^verbatim>\<open>break\<close> with
  \<^verbatim>\<open>lru = v\<close>. \<open>Inr None\<close>: the loop ran past index 0, and \<^verbatim>\<open>lru\<close> was never assigned.
\<close>

fun LRU_scan ::
  "cint list \<Rightarrow> nat \<Rightarrow> cint list \<Rightarrow> cint list \<Rightarrow> nat \<Rightarrow> nat \<Rightarrow> error + cint option" where
  "LRU_scan set_f wss data ru c 0 =
     (case LRU_scan_body set_f wss data ru c 0 of
        Break v \<Rightarrow> Inr (Some v)
      | Continue ru' c' \<Rightarrow> Inr None
      | Failed e \<Rightarrow> Inl e)"
| "LRU_scan set_f wss data ru c (Suc j) =
     (case LRU_scan_body set_f wss data ru c (Suc j) of
        Break v \<Rightarrow> Inr (Some v)
      | Continue ru' c' \<Rightarrow> LRU_scan set_f wss data ru' c' j
      | Failed e \<Rightarrow> Inl e)"

text \<open>
  One iteration of the main loop of \<^verbatim>\<open>LRU\<close>, at index \<open>i\<close>. On a miss with a full frame
  the victim is the value of \<^verbatim>\<open>lru\<close> after the scan; reading it when the scan did not
  assign it is an error, and so is a write through index \<open>-1\<close>.
\<close>

definition LRU_step :: "nat \<Rightarrow> cint list \<Rightarrow> nat \<Rightarrow> frame_state \<Rightarrow> error + frame_state" where
  "LRU_step wss data i s =
     (if i < length data then
        (if \<not> arrayContains (set_frame s) wss (data ! i) then
           (if size_c s \<noteq> wss then
              (if size_c s < length (set_frame s)
               then Inr (s\<lparr>set_frame := (set_frame s)[size_c s := data ! i],
                          size_c := size_c s + 1\<rparr>)
               else Inl OutOfBounds)
            else
              (case LRU_scan (set_frame s) wss data (replicate wss INT_MIN) 0 i of
                 Inl e \<Rightarrow> Inl e
               | Inr None \<Rightarrow> Inl Uninitialised
               | Inr (Some lru) \<Rightarrow>
                   (let c = getIndex (set_frame s) wss lru in
                    if 0 \<le> c \<and> c < int (length (set_frame s))
                    then Inr (s\<lparr>set_frame := (set_frame s)[nat c := data ! i],
                               faults := faults s + 1\<rparr>)
                    else Inl OutOfBounds)))
         else Inr s)
      else Inl OutOfBounds)"

primrec LRU_iter :: "nat \<Rightarrow> cint list \<Rightarrow> nat \<Rightarrow> error + frame_state" where
  "LRU_iter wss data 0 = Inr (LRU_init wss)"
| "LRU_iter wss data (Suc i) =
     (case LRU_iter wss data i of
        Inl e \<Rightarrow> Inl e
      | Inr s \<Rightarrow> LRU_step wss data i s)"

definition LRU_faults :: "nat \<Rightarrow> nat \<Rightarrow> cint list \<Rightarrow> error + nat" where
  "LRU_faults n wss data =
     (case LRU_iter wss data n of Inl e \<Rightarrow> Inl e | Inr s \<Rightarrow> Inr (faults s))"

definition LRU :: "nat \<Rightarrow> cint list \<Rightarrow> error + nat" where
  "LRU wss data = LRU_faults TRACES wss data"

subsection \<open>Averaging in main\<close>

text \<open>
  \<^verbatim>\<open>main\<close> keeps one accumulator per policy and frame size: it starts at 0, each trial
  adds the fault count the policy returned (\<^verbatim>\<open>LRUResults[wss] += LRU(wss, data)\<close>), and at
  the end it is divided by the number of trials (\<^verbatim>\<open>LRUResults[wss] /= TRACES\<close>). Both are
  \<^verbatim>\<open>int\<close> operations; the division of C truncates towards zero (\<open>sdiv\<close>).
\<close>

definition accumulate :: "cint \<Rightarrow> nat list \<Rightarrow> cint" where
  "accumulate acc fs = foldl (\<lambda>a f. a + of_nat f) acc fs"

definition average :: "cint \<Rightarrow> cint \<Rightarrow> cint" where
  "average acc trials = word_of_int (sint acc sdiv sint trials)"

subsection \<open>Predicates on frames\<close>

text \<open>
  The occupied slots of a frame are those that do not hold the sentinel. The frame
  invariant asks that there are at most \<open>wss\<close> of them and that no page is in two.
\<close>

definition occupied :: "cint list \<Rightarrow> cint list" where
  "occupied fr = filter (\<lambda>p. p \<noteq> INT_MIN) fr"

definition frame_invariant :: "nat \<Rightarrow> cint list \<Rightarrow> bool" where
  "frame_invariant wss fr \<longleftrightarrow> length (occupied fr) \<le> wss \<and> distinct (occupied fr)"

text \<open>
  The shape of the frame that every policy maintains, with \<open>seen\<close> the pages referenced
  so far: the first \<open>sz\<close> slots hold distinct pages that were referenced, the others
  still hold the sentinel, and as long as a slot is free no page equals the sentinel.
\<close>

definition frame_inv :: "nat \<Rightarrow> cint set \<Rightarrow> cint list \<Rightarrow> nat \<Rightarrow> bool" where
  "frame_inv wss seen fr sz \<longleftrightarrow>
     length fr = wss \<and> sz \<le> wss \<and>
     drop sz fr = replicate (wss - sz) INT_MIN \<and>
     distinct (take sz fr) \<and>
     (sz < wss \<longrightarrow> INT_MIN \<notin> set (take sz fr)) \<and>
     set (take sz fr) \<subseteq> seen"

text \<open>
  Recency of references in \<open>data[0..i]\<close>: \<open>last_ref data i p k\<close> says that the most recent
  reference to \<open>p\<close> is at position \<open>k\<close>; the least recently used page of a frame is the
  resident page whose most recent reference comes before that of every other one.
\<close>

definition last_ref :: "cint list \<Rightarrow> nat \<Rightarrow> cint \<Rightarrow> nat \<Rightarrow> bool" where
  "last_ref data i p k \<longleftrightarrow> k \<le> i \<and> data ! k = p \<and> (\<forall>m \<in> {k<..i}. data ! m \<noteq> p)"

definition least_recently_used :: "cint list \<Rightarrow> nat \<Rightarrow> cint list \<Rightarrow> cint \<Rightarrow> bool" where
  "least_recently_used data i fr v \<longleftrightarrow>
     v \<in> set fr \<and>
     (\<exists>k \<in> {..i}. last_ref data i v k \<and>
        (\<forall>p \<in> set fr. p \<noteq> v \<longrightarrow> (\<exists>k' \<in> {k<..i}. last_ref data i p k')))"

text \<open>
  The loop invariant of the backward scan, for a full frame \<open>fr\<close> without the sentinel:
  the first \<open>c\<close> entries of \<open>ru\<close> are the distinct resident pages among the references
  already scanned (\<open>later\<close>), the other entries still hold the sentinel, and every
  resident page not yet recorded is among the references still to scan (\<open>earlier\<close>).
\<close>

definition scan_inv ::
  "cint list \<Rightarrow> nat \<Rightarrow> cint set \<Rightarrow> cint set \<Rightarrow> cint list \<Rightarrow> nat \<Rightarrow> bool" where
  "scan_inv fr wss later earlier ru c \<longleftrightarrow>
     length ru = wss \<and> c < wss \<and>
     drop c ru = replicate (wss - c) INT_MIN \<and>
     distinct (take c ru) \<and>
     set (take c ru) = set fr \<inter> later \<and>
     set fr \<subseteq> set (take c ru) \<union> earlier"

text \<open>
  The same for a full frame in which one slot holds the sentinel value: the pages
  recorded are resident pages other than the sentinel.
\<close>

definition scan_inv_sentinel :: "cint list \<Rightarrow> nat \<Rightarrow> cint list \<Rightarrow> nat \<Rightarrow> bool" where
  "scan_inv_sentinel fr wss ru c \<longleftrightarrow>
     length ru = wss \<and> c < wss \<and>
     drop c ru = replicate (wss - c) INT_MIN \<and>
     distinct (take c ru) \<and>
     set (take c ru) \<subseteq> set fr - {INT_MIN}"

section \<open>Lemmas\<close>

subsection \<open>Lookup\<close>

lemma arrayContains_iff: "arrayContains xs n v \<longleftrightarrow> v \<in> set (take n xs)"
  by (induction xs n v rule: arrayContains.induct) auto

lemma arrayContains_full: "length xs = n \<Longrightarrow> arrayContains xs n v \<longleftrightarrow> v \<in> set xs"
  by (simp add: arrayContains_iff)

lemma getIndex_from_in:
  "v \<in> set xs \<Longrightarrow> i + length xs \<le> n \<Longrightarrow>
   \<exists>k < length xs. getIndex_from i xs n v = int (i + k) \<and> xs ! k = v \<and> (\<forall>m < k. xs ! m \<noteq> v)"
proof (induction xs arbitrary: i)
  case Nil
  then show ?case by simp
next
  case (Cons a xs)
  show ?case
  proof (cases "a = v")
    case True
    with Cons.prems show ?thesis by (intro exI [of _ 0]) simp
  next
    case False
    with Cons.prems have "v \<in> set xs" and "Suc i + length xs \<le> n" by auto
    from Cons.IH [OF this] obtain k where k: "k < length xs"
      "getIndex_from (Suc i) xs n v = int (Suc i + k)" "xs ! k = v" "\<forall>m < k. xs ! m \<noteq> v"
      by blast
    have "\<forall>m < Suc k. (a # xs) ! m \<noteq> v"
      using False k(4) by (auto simp: nth_Cons split: nat.splits)
    with k False Cons.prems show ?thesis
      by (intro exI [of _ "Suc k"]) auto
  qed
qed

lemma getIndex_in:
  assumes "v \<in> set xs" "length xs = n"
  shows "\<exists>k < n. getIndex xs n v = int k \<and> xs ! k = v \<and> (\<forall>m < k. xs ! m \<noteq> v)"
  using getIndex_from_in [of v xs 0 n] assms by (simp add: getIndex_def)

lemma getIndex_first:
  assumes "k < length xs" "xs ! k = v" "\<forall>m < k. xs ! m \<noteq> v" "length xs = n"
  shows "getIndex xs n v = int k"
proof -
  from assms(1,2) have "v \<in> set xs" by (metis nth_mem)
  from getIndex_in [OF this assms(4)] obtain k' where
    k': "k' < n" "getIndex xs n v = int k'" "xs ! k' = v" "\<forall>m < k'. xs ! m \<noteq> v" by blast
  have "k' = k"
  proof (rule ccontr)
    assume "k' \<noteq> k"
    then consider "k' < k" | "k < k'" by linarith
    then show False using assms(2,3) k'(3,4) by cases auto
  qed
  with k'(2) show ?thesis by simp
qed

subsection \<open>Shape of the frame\<close>

lemma frame_inv_init: "frame_inv wss seen (replicate wss INT_MIN) 0"
  by (simp add: frame_inv_def)

lemma frame_inv_mono: "frame_inv wss seen fr sz \<Longrightarrow> seen \<subseteq> seen' \<Longrightarrow> frame_inv wss seen' fr sz"
  by (auto simp: frame_inv_def)

lemma frame_inv_fill:
  assumes inv: "frame_inv wss seen fr sz" and room: "sz \<noteq> wss" and miss: "x \<notin> set fr"
  shows "frame_inv wss (insert x seen) (fr[sz := x]) (sz + 1)"
proof -
  from inv room have len: "length fr = wss" and sz: "sz < wss"
    and dr: "drop sz fr = replicate (wss - sz) INT_MIN"
    and di: "distinct (take sz fr)" and ns: "INT_MIN \<notin> set (take sz fr)"
    and sub: "set (take sz fr) \<subseteq> seen"
    by (auto simp: frame_inv_def)
  have "fr ! sz = hd (drop sz fr)" using sz len by (simp add: hd_drop_conv_nth)
  also have "\<dots> = INT_MIN" using sz by (simp add: dr)
  finally have "fr ! sz = INT_MIN" .
  then have "INT_MIN \<in> set fr" using sz len by (metis nth_mem)
  with miss have xne: "x \<noteq> INT_MIN" by auto
  have tk: "take (sz + 1) (fr[sz := x]) = take sz fr @ [x]"
    using sz len by (simp add: take_Suc_conv_app_nth)
  have "drop (sz + 1) (fr[sz := x]) = drop (Suc sz) fr" by simp
  also have "\<dots> = tl (drop sz fr)" by (simp add: drop_Suc tl_drop)
  also have "\<dots> = replicate (wss - (sz + 1)) INT_MIN" by (simp add: dr)
  finally have dr': "drop (sz + 1) (fr[sz := x]) = replicate (wss - (sz + 1)) INT_MIN" .
  have "x \<notin> set (take sz fr)" using miss by (meson in_set_takeD)
  then show ?thesis
    unfolding frame_inv_def tk dr' using len sz di ns sub xne by auto
qed

lemma frame_inv_evict:
  assumes inv: "frame_inv wss seen fr sz" and full: "sz = wss" and miss: "x \<notin> set fr"
  shows "frame_inv wss (insert x seen) (fr[k := x]) sz"
proof -
  from inv full have len: "length fr = wss" and di: "distinct fr" and sub: "set fr \<subseteq> seen"
    by (auto simp: frame_inv_def)
  have "distinct (fr[k := x])" using di miss by (simp add: distinct_list_update)
  moreover have "set (fr[k := x]) \<subseteq> insert x seen"
    using sub set_update_subset_insert [of fr k x] by auto
  ultimately show ?thesis using len full by (simp add: frame_inv_def)
qed

lemma frame_inv_full_miss:
  assumes inv: "frame_inv wss seen fr sz" and full: "sz = wss" and miss: "x \<notin> set fr"
    and fin: "finite seen"
  shows "wss < card (insert x seen)"
proof -
  from inv full have len: "length fr = wss" and di: "distinct fr" and sub: "set fr \<subseteq> seen"
    by (auto simp: frame_inv_def)
  have "card (set fr) = wss" using di len by (simp add: distinct_card)
  moreover have "card (insert x (set fr)) = Suc (card (set fr))" using miss by simp
  moreover have "card (insert x (set fr)) \<le> card (insert x seen)"
    using sub fin by (intro card_mono) auto
  ultimately show ?thesis by simp
qed

lemma frame_inv_slots:
  assumes inv: "frame_inv wss seen fr sz" and room: "sz < wss"
  shows "fr ! sz = INT_MIN" and "\<forall>k < sz. fr ! k \<noteq> INT_MIN" and "INT_MIN \<in> set fr"
proof -
  from inv have len: "length fr = wss"
    and dr: "drop sz fr = replicate (wss - sz) INT_MIN"
    and ns: "sz < wss \<longrightarrow> INT_MIN \<notin> set (take sz fr)"
    by (auto simp: frame_inv_def)
  have "fr ! sz = hd (drop sz fr)" using room len by (simp add: hd_drop_conv_nth)
  also have "\<dots> = INT_MIN" using room by (simp add: dr)
  finally show a: "fr ! sz = INT_MIN" .
  show "\<forall>k < sz. fr ! k \<noteq> INT_MIN"
  proof (intro allI impI)
    fix k assume k: "k < sz"
    then have "fr ! k = take sz fr ! k" by simp
    moreover have "take sz fr ! k \<in> set (take sz fr)" using k room len by (intro nth_mem) simp
    ultimately show "fr ! k \<noteq> INT_MIN" using ns room by metis
  qed
  show "INT_MIN \<in> set fr" using a room len by (metis nth_mem)
qed

lemma frame_inv_full:
  assumes "frame_inv wss seen fr sz" "sz = wss"
  shows "length fr = wss" "distinct fr" "set fr \<subseteq> seen"
  using assms by (auto simp: frame_inv_def)

lemma frame_inv_size: "frame_inv wss seen fr sz \<Longrightarrow> sz \<le> wss"
  by (simp add: frame_inv_def)

lemma frame_inv_invariant:
  assumes "frame_inv wss seen fr sz"
  shows "frame_invariant wss fr"
proof -
  from assms have len: "length fr = wss"
    and dr: "drop sz fr = replicate (wss - sz) INT_MIN" and di: "distinct (take sz fr)"
    by (auto simp: frame_inv_def)
  have "occupied fr = occupied (take sz fr @ drop sz fr)" by simp
  also have "\<dots> = occupied (take sz fr) @ occupied (replicate (wss - sz) INT_MIN)"
    unfolding dr by (simp add: occupied_def)
  also have "occupied (replicate (wss - sz) INT_MIN) = []"
    by (simp add: occupied_def)
  finally have o: "occupied fr = occupied (take sz fr)" by simp
  have "length (occupied fr) \<le> length fr" by (simp add: occupied_def)
  moreover have "distinct (occupied fr)" unfolding o using di by (simp add: occupied_def)
  ultimately show ?thesis using len by (simp add: frame_invariant_def)
qed

lemma set_take_Suc: "i < length data \<Longrightarrow> set (take (Suc i) data) = insert (data ! i) (set (take i data))"
  by (simp add: take_Suc_conv_app_nth)

subsection \<open>FIFO runs\<close>

lemma FIFO_step_total:
  assumes inv: "frame_inv wss seen (set_frame s) (size_c s)" and idx: "fifoIndex s < wss"
  shows "\<exists>s'. FIFO_step wss x s = Inr s' \<and>
           frame_inv wss (insert x seen) (set_frame s') (size_c s') \<and> fifoIndex s' < wss"
proof -
  from inv have len: "length (set_frame s) = wss" and sz: "size_c s \<le> wss"
    by (auto simp: frame_inv_def)
  show ?thesis
  proof (cases "x \<in> set (set_frame s)")
    case True
    then have "FIFO_step wss x s = Inr s"
      by (simp add: FIFO_step_def arrayContains_full [OF len])
    with inv idx show ?thesis by (auto intro: frame_inv_mono)
  next
    case miss: False
    show ?thesis
    proof (cases "size_c s = wss")
      case False
      with miss len sz have "FIFO_step wss x s =
          Inr (s\<lparr>set_frame := (set_frame s)[size_c s := x], size_c := size_c s + 1\<rparr>)"
        by (simp add: FIFO_step_def arrayContains_full [OF len])
      with frame_inv_fill [OF inv False miss] idx show ?thesis by simp
    next
      case True
      with miss len idx have "FIFO_step wss x s =
          Inr (s\<lparr>set_frame := (set_frame s)[fifoIndex s := x], faults := faults s + 1,
                 fifoIndex := (if fifoIndex s + 1 = wss then 0 else fifoIndex s + 1)\<rparr>)"
        by (simp add: FIFO_step_def arrayContains_full [OF len])
      with frame_inv_evict [OF inv True miss, of "fifoIndex s"] idx show ?thesis by auto
    qed
  qed
qed

lemma FIFO_step_faults:
  assumes inv: "frame_inv wss seen (set_frame s) (size_c s)" and fin: "finite seen"
    and few: "card (insert x seen) \<le> wss" and step: "FIFO_step wss x s = Inr s'"
  shows "faults s' = faults s"
proof -
  from inv have len: "length (set_frame s) = wss" by (simp add: frame_inv_def)
  have "\<not> (size_c s = wss \<and> x \<notin> set (set_frame s))"
    using frame_inv_full_miss [OF inv _ _ fin, of x] few by auto
  with step show ?thesis
    by (auto simp: FIFO_step_def arrayContains_full [OF len] split: if_splits)
qed

lemma FIFO_reach:
  assumes "0 < wss" "i \<le> length data"
  shows "\<exists>s. FIFO_iter wss data i = Inr s \<and>
           frame_inv wss (set (take i data)) (set_frame s) (size_c s) \<and> fifoIndex s < wss"
  using assms(2)
proof (induction i)
  case 0
  show ?case using assms(1) by (simp add: FIFO_init_def frame_inv_init)
next
  case (Suc i)
  then obtain s where s: "FIFO_iter wss data i = Inr s"
    "frame_inv wss (set (take i data)) (set_frame s) (size_c s)" "fifoIndex s < wss"
    by auto
  from FIFO_step_total [OF s(2,3), of "data ! i"] Suc.prems s(1) show ?case
    by (simp add: set_take_Suc)
qed

lemma FIFO_no_faults:
  assumes wss: "0 < wss" and n: "n \<le> length data" and few: "card (set (take n data)) \<le> wss"
    and i: "i \<le> n"
  shows "\<exists>s. FIFO_iter wss data i = Inr s \<and> faults s = 0"
  using i
proof (induction i)
  case 0
  show ?case by (simp add: FIFO_init_def)
next
  case (Suc i)
  then obtain s where s: "FIFO_iter wss data i = Inr s" "faults s = 0" by auto
  from Suc.prems n have il: "i < length data" "i \<le> length data" by auto
  from FIFO_reach [OF wss il(2)] s(1)
  have inv: "frame_inv wss (set (take i data)) (set_frame s) (size_c s)" "fifoIndex s < wss"
    by auto
  from FIFO_step_total [OF inv, of "data ! i"] obtain s' where
    s': "FIFO_step wss (data ! i) s = Inr s'" by blast
  have "set (take (Suc i) data) \<subseteq> set (take n data)"
    using Suc.prems by (meson set_take_subset_set_take)
  then have "card (set (take (Suc i) data)) \<le> card (set (take n data))"
    by (intro card_mono) auto
  with few il have "card (insert (data ! i) (set (take i data))) \<le> wss"
    by (simp add: set_take_Suc)
  from FIFO_step_faults [OF inv(1) _ this s'] s(2) have "faults s' = 0" by simp
  with s(1) s' il show ?case by simp
qed

lemma FIFO_faults_zero:
  assumes "0 < wss" "n \<le> length data" "card (set (take n data)) \<le> wss"
  shows "FIFO_faults n wss data = Inr 0"
  using FIFO_no_faults [OF assms, of n] by (auto simp: FIFO_faults_def)

subsection \<open>Clock runs\<close>

lemma card_clear_bit:
  fixes sc :: "cint list"
  assumes k: "k < length sc" and set: "sc ! k \<noteq> 0"
  shows "card {i. i < length (sc[k := 0]) \<and> sc[k := 0] ! i \<noteq> 0}
           < card {i. i < length sc \<and> sc ! i \<noteq> 0}"
proof -
  have "{i. i < length (sc[k := 0]) \<and> sc[k := 0] ! i \<noteq> 0}
          \<subset> {i. i < length sc \<and> sc ! i \<noteq> 0}"
    using k set by (auto simp: nth_list_update)
  then show ?thesis by (intro psubset_card_mono) simp_all
qed

lemma card_bits_le: "card {i. i < length (sc :: cint list) \<and> sc ! i \<noteq> 0} \<le> length sc"
proof -
  have "card {i. i < length sc \<and> sc ! i \<noteq> 0} \<le> card {..< length sc}"
    by (intro card_mono) auto
  then show ?thesis by simp
qed

lemma Clock_sweep_result:
  "k < length sc \<Longrightarrow> length sc = wss \<Longrightarrow>
   \<exists>sc' k' n'. Clock_sweep wss sc k n = Inr (sc', k', n') \<and> length sc' = wss \<and> k' < wss \<and>
      sc' ! k' = 0 \<and> n' \<le> n + card {i. i < length sc \<and> sc ! i \<noteq> 0}"
proof (induction wss sc k n rule: Clock_sweep.induct)
  case (1 wss sc k n)
  show ?case
  proof (cases "sc ! k \<noteq> 0")
    case False
    with "1.prems" show ?thesis by simp
  next
    case True
    let ?k = "if k + 1 = wss then 0 else k + 1"
    have "?k < length (sc[k := 0])" "length (sc[k := 0]) = wss"
      using "1.prems" by auto
    from "1.IH" [OF "1.prems"(1) True this] obtain sc' k' n' where
      r: "Clock_sweep wss (sc[k := 0]) ?k (n + 1) = Inr (sc', k', n')" "length sc' = wss"
         "k' < wss" "sc' ! k' = 0"
         "n' \<le> n + 1 + card {i. i < length (sc[k := 0]) \<and> sc[k := 0] ! i \<noteq> 0}"
      by blast
    from r(5) card_clear_bit [OF "1.prems"(1) True]
    have "n' \<le> n + card {i. i < length sc \<and> sc ! i \<noteq> 0}" by linarith
    moreover have "Clock_sweep wss sc k n = Clock_sweep wss (sc[k := 0]) ?k (n + 1)"
      using "1.prems"(1) True by (subst Clock_sweep.simps) simp
    ultimately show ?thesis using r by auto
  qed
qed

lemma Clock_sweep_bound:
  assumes "k < length sc" "length sc = wss"
  shows "\<exists>sc' k' n'. Clock_sweep wss sc k 0 = Inr (sc', k', n') \<and> length sc' = wss \<and> k' < wss \<and>
      sc' ! k' = 0 \<and> n' \<le> wss"
proof -
  from Clock_sweep_result [OF assms, of 0] obtain sc' k' n' where
    r: "Clock_sweep wss sc k 0 = Inr (sc', k', n')" "length sc' = wss" "k' < wss" "sc' ! k' = 0"
       "n' \<le> 0 + card {i. i < length sc \<and> sc ! i \<noteq> 0}"
    by blast
  from r(5) card_bits_le [of sc] assms(2) have "n' \<le> wss" by linarith
  with r show ?thesis by blast
qed

lemma Clock_sweep_unset:
  "k < length sc \<Longrightarrow> sc ! k = 0 \<Longrightarrow> Clock_sweep wss sc k n = Inr (sc, k, n)"
  by (subst Clock_sweep.simps) simp

lemma Clock_step_total:
  assumes inv: "frame_inv wss seen (set_frame s) (size_c s)" and idx: "fifoIndex s < wss"
    and bits: "length (secondChance s) = wss"
  shows "\<exists>s'. Clock_step wss x s = Inr s' \<and>
           frame_inv wss (insert x seen) (set_frame s') (size_c s') \<and> fifoIndex s' < wss \<and>
           length (secondChance s') = wss"
proof -
  from inv have len: "length (set_frame s) = wss" and sz: "size_c s \<le> wss"
    by (auto simp: frame_inv_def)
  show ?thesis
  proof (cases "x \<in> set (set_frame s)")
    case True
    from getIndex_in [OF True len] obtain k where
      k: "k < wss" "getIndex (set_frame s) wss x = int k" by blast
    then have "Clock_step wss x s = Inr (s\<lparr>secondChance := (secondChance s)[k := 1]\<rparr>)"
      using True bits by (simp add: Clock_step_def arrayContains_full [OF len])
    with inv idx bits show ?thesis by (auto intro: frame_inv_mono)
  next
    case miss: False
    show ?thesis
    proof (cases "size_c s = wss")
      case False
      with miss len sz have "Clock_step wss x s =
          Inr (s\<lparr>set_frame := (set_frame s)[size_c s := x], size_c := size_c s + 1\<rparr>)"
        by (simp add: Clock_step_def arrayContains_full [OF len])
      with frame_inv_fill [OF inv False miss] idx bits show ?thesis by simp
    next
      case True
      from idx bits have "fifoIndex s < length (secondChance s)" by simp
      from Clock_sweep_bound [OF this bits] obtain sc' k' n' where
        r: "Clock_sweep wss (secondChance s) (fifoIndex s) 0 = Inr (sc', k', n')"
           "length sc' = wss" "k' < wss"
        by blast
      with True miss len have "Clock_step wss x s =
          Inr (s\<lparr>set_frame := (set_frame s)[k' := x], faults := faults s + 1,
                 fifoIndex := (if k' + 1 = wss then 0 else k' + 1), secondChance := sc'\<rparr>)"
        by (simp add: Clock_step_def arrayContains_full [OF len])
      with frame_inv_evict [OF inv True miss, of k'] r show ?thesis by auto
    qed
  qed
qed

lemma Clock_step_faults:
  assumes inv: "frame_inv wss seen (set_frame s) (size_c s)" and fin: "finite seen"
    and few: "card (insert x seen) \<le> wss" and step: "Clock_step wss x s = Inr s'"
  shows "faults s' = faults s"
proof -
  from inv have len: "length (set_frame s) = wss" by (simp add: frame_inv_def)
  have "\<not> (size_c s = wss \<and> x \<notin> set (set_frame s))"
    using frame_inv_full_miss [OF inv _ _ fin, of x] few by auto
  with step show ?thesis
    by (auto simp: Clock_step_def Let_def arrayContains_full [OF len] split: if_splits)
qed

lemma Clock_reach:
  assumes "0 < wss" "i \<le> length data"
  shows "\<exists>s. Clock_iter wss data i = Inr s \<and>
           frame_inv wss (set (take i data)) (set_frame s) (size_c s) \<and> fifoIndex s < wss \<and>
           length (secondChance s) = wss"
  using assms(2)
proof (induction i)
  case 0
  show ?case using assms(1) by (simp add: Clock_init_def frame_inv_init)
next
  case (Suc i)
  then obtain s where s: "Clock_iter wss data i = Inr s"
    "frame_inv wss (set (take i data)) (set_frame s) (size_c s)" "fifoIndex s < wss"
    "length (secondChance s) = wss"
    by auto
  from Clock_step_total [OF s(2,3,4), of "data ! i"] Suc.prems s(1) show ?case
    by (simp add: set_take_Suc)
qed

lemma Clock_no_faults:
  assumes wss: "0 < wss" and n: "n \<le> length data" and few: "card (set (take n data)) \<le> wss"
    and i: "i \<le> n"
  shows "\<exists>s. Clock_iter wss data i = Inr s \<and> faults s = 0"
  using i
proof (induction i)
  case 0
  show ?case by (simp add: Clock_init_def)
next
  case (Suc i)
  then obtain s where s: "Clock_iter wss data i = Inr s" "faults s = 0" by auto
  from Suc.prems n have il: "i < length data" "i \<le> length data" by auto
  from Clock_reach [OF wss il(2)] s(1)
  have inv: "frame_inv wss (set (take i data)) (set_frame s) (size_c s)" "fifoIndex s < wss"
    "length (secondChance s) = wss"
    by auto
  from Clock_step_total [OF inv, of "data ! i"] obtain s' where
    s': "Clock_step wss (data ! i) s = Inr s'" by blast
  have "set (take (Suc i) data) \<subseteq> set (take n data)"
    using Suc.prems by (meson set_take_subset_set_take)
  then have "card (set (take (Suc i) data)) \<le> card (set (take n data))"
    by (intro card_mono) auto
  with few il have "card (insert (data ! i) (set (take i data))) \<le> wss"
    by (simp add: set_take_Suc)
  from Clock_step_faults [OF inv(1) _ this s'] s(2) have "faults s' = 0" by simp
  with s(1) s' il show ?case by simp
qed

lemma Clock_faults_zero:
  assumes "0 < wss" "n \<le> length data" "card (set (take n data)) \<le> wss"
  shows "Clock_faults n wss data = Inr 0"
  using Clock_no_faults [OF assms, of n] by (auto simp: Clock_faults_def)

subsection \<open>LRU runs\<close>

lemma LRU_step_inv:
  assumes inv: "frame_inv wss seen (set_frame s) (size_c s)"
    and step: "LRU_step wss data i s = Inr s'"
  shows "i < length data \<and> frame_inv wss (insert (data ! i) seen) (set_frame s') (size_c s')"
proof -
  from inv have len: "length (set_frame s) = wss" and sz: "size_c s \<le> wss"
    by (auto simp: frame_inv_def)
  from step have il: "i < length data" by (cases "i < length data") (simp_all add: LRU_step_def)
  let ?x = "data ! i"
  have "frame_inv wss (insert ?x seen) (set_frame s') (size_c s')"
  proof (cases "?x \<in> set (set_frame s)")
    case True
    with step il have "s' = s" by (simp add: LRU_step_def arrayContains_full [OF len])
    with inv show ?thesis by (auto intro: frame_inv_mono)
  next
    case miss: False
    show ?thesis
    proof (cases "size_c s = wss")
      case False
      with miss len sz step il have "s' =
          s\<lparr>set_frame := (set_frame s)[size_c s := ?x], size_c := size_c s + 1\<rparr>"
        by (simp add: LRU_step_def arrayContains_full [OF len])
      with frame_inv_fill [OF inv False miss] show ?thesis by simp
    next
      case True
      let ?scan = "LRU_scan (set_frame s) wss data (replicate wss INT_MIN) 0 i"
      from step il miss True have step': "(case ?scan of
             Inl e \<Rightarrow> Inl e
           | Inr None \<Rightarrow> Inl Uninitialised
           | Inr (Some lru) \<Rightarrow>
               (let c = getIndex (set_frame s) wss lru in
                if 0 \<le> c \<and> c < int (length (set_frame s))
                then Inr (s\<lparr>set_frame := (set_frame s)[nat c := ?x],
                           faults := faults s + 1\<rparr>)
                else Inl OutOfBounds)) = Inr s'"
        by (simp add: LRU_step_def arrayContains_full [OF len])
      then obtain lru where lru: "?scan = Inr (Some lru)"
        by (cases ?scan) (auto split: option.splits)
      from step' have "s' = s\<lparr>set_frame := (set_frame s)[nat (getIndex (set_frame s) wss lru) := ?x],
          faults := faults s + 1\<rparr>"
        unfolding lru by (simp add: Let_def split: if_splits)
      with frame_inv_evict [OF inv True miss, of "nat (getIndex (set_frame s) wss lru)"]
      show ?thesis by simp
    qed
  qed
  with il show ?thesis by simp
qed

lemma LRU_step_no_fault:
  assumes inv: "frame_inv wss seen (set_frame s) (size_c s)" and fin: "finite seen"
    and few: "card (insert (data ! i) seen) \<le> wss" and il: "i < length data"
  shows "\<exists>s'. LRU_step wss data i s = Inr s' \<and> faults s' = faults s"
proof -
  from inv have len: "length (set_frame s) = wss" and sz: "size_c s \<le> wss"
    by (auto simp: frame_inv_def)
  have "\<not> (size_c s = wss \<and> data ! i \<notin> set (set_frame s))"
    using frame_inv_full_miss [OF inv _ _ fin, of "data ! i"] few by auto
  with il sz len show ?thesis
    by (auto simp: LRU_step_def arrayContains_full [OF len])
qed

lemma LRU_reach:
  "LRU_iter wss data i = Inr s \<Longrightarrow>
     i \<le> length data \<and> frame_inv wss (set (take i data)) (set_frame s) (size_c s)"
proof (induction i arbitrary: s)
  case 0
  then show ?case by (auto simp: LRU_init_def frame_inv_init)
next
  case (Suc i)
  then obtain t where t: "LRU_iter wss data i = Inr t" "LRU_step wss data i t = Inr s"
    by (auto split: sum.splits)
  from Suc.IH [OF t(1)] have inv: "frame_inv wss (set (take i data)) (set_frame t) (size_c t)"
    by simp
  from LRU_step_inv [OF inv t(2)] show ?case by (simp add: set_take_Suc)
qed

lemma LRU_no_faults:
  assumes n: "n \<le> length data" and few: "card (set (take n data)) \<le> wss"
    and i: "i \<le> n"
  shows "\<exists>s. LRU_iter wss data i = Inr s \<and> faults s = 0"
  using i
proof (induction i)
  case 0
  show ?case by (simp add: LRU_init_def)
next
  case (Suc i)
  then obtain s where s: "LRU_iter wss data i = Inr s" "faults s = 0" by auto
  from Suc.prems n have il: "i < length data" by auto
  from LRU_reach [OF s(1)]
  have inv: "frame_inv wss (set (take i data)) (set_frame s) (size_c s)" by simp
  have "set (take (Suc i) data) \<subseteq> set (take n data)"
    using Suc.prems by (meson set_take_subset_set_take)
  then have "card (set (take (Suc i) data)) \<le> card (set (take n data))"
    by (intro card_mono) auto
  with few il have "card (insert (data ! i) (set (take i data))) \<le> wss"
    by (simp add: set_take_Suc)
  from LRU_step_no_fault [OF inv _ this il] s show ?case by auto
qed

lemma LRU_faults_zero:
  assumes "n \<le> length data" "card (set (take n data)) \<le> wss"
  shows "LRU_faults n wss data = Inr 0"
  using LRU_no_faults [OF assms, of n] by (auto simp: LRU_faults_def)

subsection \<open>The backward scan of LRU\<close>

lemma scan_inv_start:
  "0 < wss \<Longrightarrow> set fr \<subseteq> earlier \<Longrightarrow> scan_inv fr wss {} earlier (replicate wss INT_MIN) 0"
  by (simp add: scan_inv_def)

lemma scan_inv_earlier:
  "scan_inv fr wss later earlier ru c \<Longrightarrow> earlier \<subseteq> earlier' \<Longrightarrow>
     scan_inv fr wss later earlier' ru c"
  by (auto simp: scan_inv_def)

lemma scan_inv_exhausted:
  assumes inv: "scan_inv fr wss later {} ru c" and len: "length fr = wss" and di: "distinct fr"
  shows False
proof -
  from inv have sub: "set fr \<subseteq> set (take c ru)" and c: "c < wss" and lr: "length ru = wss"
    by (auto simp: scan_inv_def)
  have "card (set fr) \<le> card (set (take c ru))" using sub by (intro card_mono) auto
  also have "\<dots> \<le> length (take c ru)" by (rule card_length)
  also have "\<dots> = c" using c lr by simp
  finally show False using di len c by (simp add: distinct_card)
qed

lemma scan_inv_ru_set:
  assumes inv: "scan_inv fr wss later earlier ru c"
  shows "set ru = insert INT_MIN (set (take c ru))"
proof -
  from inv have c: "c < wss" and dr: "drop c ru = replicate (wss - c) INT_MIN"
    by (auto simp: scan_inv_def)
  have "set ru = set (take c ru @ drop c ru)" by simp
  also have "\<dots> = set (take c ru) \<union> set (replicate (wss - c) INT_MIN)"
    unfolding dr by (rule set_append)
  also have "\<dots> = insert INT_MIN (set (take c ru))" using c by auto
  finally show ?thesis .
qed

lemma LRU_scan_body_cases:
  assumes len: "length fr = wss" and ns: "INT_MIN \<notin> set fr" and j: "j < length data"
    and inv: "scan_inv fr wss later earlier ru c"
  shows "LRU_scan_body fr wss data ru c j =
           (if data ! j \<in> set fr \<and> data ! j \<notin> set (take c ru)
            then (if c + 1 = wss then Break (data ! j)
                  else Continue (ru[c := data ! j]) (c + 1))
            else Continue ru c)"
proof -
  from inv have lr: "length ru = wss" and c: "c < wss" by (auto simp: scan_inv_def)
  note rs = scan_inv_ru_set [OF inv]
  show ?thesis
  proof (cases "data ! j \<in> set fr")
    case False
    with j show ?thesis by (simp add: LRU_scan_body_def arrayContains_full [OF len])
  next
    case True
    with ns have "data ! j \<noteq> INT_MIN" by auto
    then have "data ! j \<in> set ru \<longleftrightarrow> data ! j \<in> set (take c ru)" by (simp add: rs)
    with True j c lr show ?thesis
      by (simp add: LRU_scan_body_def arrayContains_full [OF len] arrayContains_full [OF lr])
  qed
qed

lemma LRU_scan_body_post:
  assumes len: "length fr = wss" and di: "distinct fr" and ns: "INT_MIN \<notin> set fr"
    and j: "j < length data" and inv: "scan_inv fr wss later earlier ru c"
  shows "(LRU_scan_body fr wss data ru c j = Break (data ! j) \<and> data ! j \<in> set fr \<and>
            data ! j \<notin> later \<and> set fr - {data ! j} \<subseteq> later)
       \<or> (\<exists>ru' c'. LRU_scan_body fr wss data ru c j = Continue ru' c' \<and>
            scan_inv fr wss (insert (data ! j) later) (earlier - {data ! j}) ru' c')"
proof -
  let ?x = "data ! j"
  from inv have lr: "length ru = wss" and c: "c < wss"
    and dr: "drop c ru = replicate (wss - c) INT_MIN" and dt: "distinct (take c ru)"
    and eq: "set (take c ru) = set fr \<inter> later" and sub: "set fr \<subseteq> set (take c ru) \<union> earlier"
    by (auto simp: scan_inv_def)
  note body = LRU_scan_body_cases [OF len ns j inv]
  show ?thesis
  proof (cases "?x \<in> set fr \<and> ?x \<notin> set (take c ru)")
    case False
    then have "LRU_scan_body fr wss data ru c j = Continue ru c" by (simp add: body)
    moreover have "scan_inv fr wss (insert ?x later) (earlier - {?x}) ru c"
      unfolding scan_inv_def using False lr c dr dt eq sub by auto
    ultimately show ?thesis by blast
  next
    case new: True
    show ?thesis
    proof (cases "c + 1 = wss")
      case True
      with new have b: "LRU_scan_body fr wss data ru c j = Break ?x" by (simp add: body)
      have nl: "?x \<notin> later" using new eq by auto
      have "card (set (take c ru)) = c" using dt c lr by (simp add: distinct_card)
      moreover have "card (set fr - {?x}) = c"
        using new di len True by (simp add: distinct_card)
      moreover have "set (take c ru) \<subseteq> set fr - {?x}" using eq new by auto
      ultimately have "set (take c ru) = set fr - {?x}"
        by (intro card_subset_eq) auto
      with eq have "set fr - {?x} \<subseteq> later" by auto
      with b new nl show ?thesis by blast
    next
      case False
      with new have b: "LRU_scan_body fr wss data ru c j = Continue (ru[c := ?x]) (c + 1)"
        by (simp add: body)
      have tk: "take (c + 1) (ru[c := ?x]) = take c ru @ [?x]"
        using c lr by (simp add: take_Suc_conv_app_nth)
      have "drop (c + 1) (ru[c := ?x]) = drop (Suc c) ru" by simp
      also have "\<dots> = tl (drop c ru)" by (simp add: drop_Suc tl_drop)
      also have "\<dots> = replicate (wss - (c + 1)) INT_MIN" by (simp add: dr)
      finally have dr': "drop (c + 1) (ru[c := ?x]) = replicate (wss - (c + 1)) INT_MIN" .
      have "scan_inv fr wss (insert ?x later) (earlier - {?x}) (ru[c := ?x]) (c + 1)"
        unfolding scan_inv_def tk dr' using new False lr c dt eq sub by auto
      with b show ?thesis by blast
    qed
  qed
qed

lemma LRU_scan_finds:
  assumes len: "length fr = wss" and di: "distinct fr" and ns: "INT_MIN \<notin> set fr"
    and i: "i < length data"
  shows "j \<le> i \<Longrightarrow> scan_inv fr wss ((!) data ` {Suc j..i}) ((!) data ` {..j}) ru c \<Longrightarrow>
         \<exists>k \<le> j. LRU_scan fr wss data ru c j = Inr (Some (data ! k)) \<and> data ! k \<in> set fr \<and>
            data ! k \<notin> (!) data ` {Suc k..i} \<and> set fr - {data ! k} \<subseteq> (!) data ` {Suc k..i}"
proof (induction j arbitrary: ru c)
  case 0
  from i have jl: "0 < length data" by (cases data) simp_all
  from LRU_scan_body_post [OF len di ns jl "0.prems"(2)]
  consider (brk) "LRU_scan_body fr wss data ru c 0 = Break (data ! 0)" "data ! 0 \<in> set fr"
      "data ! 0 \<notin> (!) data ` {Suc 0..i}" "set fr - {data ! 0} \<subseteq> (!) data ` {Suc 0..i}"
    | (cont) ru' c' where "LRU_scan_body fr wss data ru c 0 = Continue ru' c'"
      "scan_inv fr wss (insert (data ! 0) ((!) data ` {Suc 0..i})) ((!) data ` {..0} - {data ! 0}) ru' c'"
    by blast
  then show ?case
  proof cases
    case brk
    then show ?thesis by simp
  next
    case cont
    have "(!) data ` {..0::nat} - {data ! 0} = {}" by auto
    with cont(2) scan_inv_exhausted [OF _ len di] show ?thesis by metis
  qed
next
  case (Suc j)
  from Suc.prems i have jl: "Suc j < length data" by simp
  from LRU_scan_body_post [OF len di ns jl Suc.prems(2)]
  consider (brk) "LRU_scan_body fr wss data ru c (Suc j) = Break (data ! Suc j)"
      "data ! Suc j \<in> set fr" "data ! Suc j \<notin> (!) data ` {Suc (Suc j)..i}"
      "set fr - {data ! Suc j} \<subseteq> (!) data ` {Suc (Suc j)..i}"
    | (cont) ru' c' where "LRU_scan_body fr wss data ru c (Suc j) = Continue ru' c'"
      "scan_inv fr wss (insert (data ! Suc j) ((!) data ` {Suc (Suc j)..i}))
         ((!) data ` {..Suc j} - {data ! Suc j}) ru' c'"
    by auto
  then show ?case
  proof cases
    case brk
    then show ?thesis by (intro exI [of _ "Suc j"]) simp
  next
    case cont
    have "{Suc j..i} = insert (Suc j) {Suc (Suc j)..i}" using Suc.prems(1) by auto
    then have l: "insert (data ! Suc j) ((!) data ` {Suc (Suc j)..i}) = (!) data ` {Suc j..i}"
      by simp
    have e: "(!) data ` {..Suc j} - {data ! Suc j} \<subseteq> (!) data ` {..j}"
      by (auto simp: atMost_Suc)
    from cont(2) have "scan_inv fr wss ((!) data ` {Suc j..i}) ((!) data ` {..j}) ru' c'"
      unfolding l by (rule scan_inv_earlier) (rule e)
    from Suc.IH [OF _ this] Suc.prems(1) obtain k where
      k: "k \<le> j" "LRU_scan fr wss data ru' c' j = Inr (Some (data ! k))" "data ! k \<in> set fr"
         "data ! k \<notin> (!) data ` {Suc k..i}" "set fr - {data ! k} \<subseteq> (!) data ` {Suc k..i}"
      by auto
    from k(2) cont(1) have "LRU_scan fr wss data ru c (Suc j) = Inr (Some (data ! k))" by simp
    with k show ?thesis by (intro exI [of _ k]) simp
  qed
qed

lemma last_ref_exists:
  assumes "m \<le> i" "data ! m = p"
  shows "\<exists>k \<in> {m..i}. last_ref data i p k"
proof -
  define S where "S = {n. n \<le> i \<and> data ! n = p}"
  define k where "k = Max S"
  have fin: "finite S" by (simp add: S_def)
  have ne: "m \<in> S" using assms by (simp add: S_def)
  have "k \<in> S" unfolding k_def using fin ne by (intro Max_in) auto
  then have kin: "k \<le> i" "data ! k = p" by (simp_all add: S_def)
  have mk: "m \<le> k" unfolding k_def using fin ne by (intro Max_ge)
  have "\<forall>n \<in> {k<..i}. data ! n \<noteq> p"
  proof
    fix n assume n: "n \<in> {k<..i}"
    show "data ! n \<noteq> p"
    proof
      assume "data ! n = p"
      with n have "n \<in> S" by (simp add: S_def)
      then have "n \<le> k" unfolding k_def using fin by (intro Max_ge)
      with n show False by simp
    qed
  qed
  with kin have "last_ref data i p k" by (simp add: last_ref_def)
  moreover have "k \<in> {m..i}" using mk kin(1) by simp
  ultimately show ?thesis by blast
qed

lemma LRU_scan_victim:
  assumes wss: "0 < wss" and inv: "frame_inv wss (set (take i data)) fr wss"
    and ns: "INT_MIN \<notin> set fr" and i: "i < length data"
  shows "\<exists>v. LRU_scan fr wss data (replicate wss INT_MIN) 0 i = Inr (Some v) \<and>
           least_recently_used data i fr v"
proof -
  note fr = frame_inv_full [OF inv refl]
  have "set (take i data) \<subseteq> (!) data ` {..i}"
  proof
    fix x assume "x \<in> set (take i data)"
    then obtain m where "m < length (take i data)" "take i data ! m = x"
      by (auto simp: in_set_conv_nth)
    then have "m \<le> i" "data ! m = x" by auto
    then show "x \<in> (!) data ` {..i}" by auto
  qed
  with fr(3) have "set fr \<subseteq> (!) data ` {..i}" by blast
  from scan_inv_start [OF wss this]
  have "scan_inv fr wss ((!) data ` {Suc i..i}) ((!) data ` {..i}) (replicate wss INT_MIN) 0"
    by simp
  from LRU_scan_finds [OF fr(1,2) ns i _ this] obtain k where
    k: "k \<le> i" "LRU_scan fr wss data (replicate wss INT_MIN) 0 i = Inr (Some (data ! k))"
       "data ! k \<in> set fr" "data ! k \<notin> (!) data ` {Suc k..i}"
       "set fr - {data ! k} \<subseteq> (!) data ` {Suc k..i}"
    by blast
  have "\<forall>m \<in> {k<..i}. data ! m \<noteq> data ! k"
  proof
    fix m assume "m \<in> {k<..i}"
    then have "m \<in> {Suc k..i}" by auto
    then have "data ! m \<in> (!) data ` {Suc k..i}" by (rule imageI)
    with k(4) show "data ! m \<noteq> data ! k" by metis
  qed
  with k(1) have lk: "last_ref data i (data ! k) k"
    by (simp add: last_ref_def)
  have others: "\<forall>p \<in> set fr. p \<noteq> data ! k \<longrightarrow> (\<exists>k' \<in> {k<..i}. last_ref data i p k')"
  proof (intro ballI impI)
    fix p assume "p \<in> set fr" "p \<noteq> data ! k"
    with k(5) have "p \<in> (!) data ` {Suc k..i}" by blast
    then obtain m where m: "m \<in> {Suc k..i}" "data ! m = p" by blast
    then have "m \<le> i" by simp
    from last_ref_exists [OF this m(2)] obtain k' where "k' \<in> {m..i}" "last_ref data i p k'"
      by blast
    moreover from this m(1) have "k' \<in> {k<..i}" by simp
    ultimately show "\<exists>k' \<in> {k<..i}. last_ref data i p k'" by blast
  qed
  have "least_recently_used data i fr (data ! k)"
    unfolding least_recently_used_def using k(1,3) lk others by blast
  with k(2) show ?thesis by blast
qed

lemma LRU_step_full_miss:
  assumes wss: "0 < wss" and inv: "frame_inv wss (set (take i data)) (set_frame s) (size_c s)"
    and i: "i < length data" and full: "size_c s = wss"
    and miss: "data ! i \<notin> set (set_frame s)" and ns: "INT_MIN \<notin> set (set_frame s)"
  shows "\<exists>v k. LRU_scan (set_frame s) wss data (replicate wss INT_MIN) 0 i = Inr (Some v)
            \<and> least_recently_used data i (set_frame s) v
            \<and> k < wss \<and> set_frame s ! k = v
            \<and> LRU_step wss data i s =
                Inr (s\<lparr>set_frame := (set_frame s)[k := data ! i], faults := faults s + 1\<rparr>)"
proof -
  from inv full have inv': "frame_inv wss (set (take i data)) (set_frame s) wss" by simp
  then have len: "length (set_frame s) = wss" by (simp add: frame_inv_def)
  from LRU_scan_victim [OF wss inv' ns i] obtain v where
    v: "LRU_scan (set_frame s) wss data (replicate wss INT_MIN) 0 i = Inr (Some v)"
       "least_recently_used data i (set_frame s) v"
    by blast
  then have "v \<in> set (set_frame s)" by (simp add: least_recently_used_def)
  from getIndex_in [OF this len] obtain k where
    k: "k < wss" "getIndex (set_frame s) wss v = int k" "set_frame s ! k = v" by blast
  have "LRU_step wss data i s =
      Inr (s\<lparr>set_frame := (set_frame s)[k := data ! i], faults := faults s + 1\<rparr>)"
    using i miss full v(1) k(1,2) len by (simp add: LRU_step_def arrayContains_full [OF len])
  with v k show ?thesis by blast
qed

lemma LRU_step_total:
  assumes wss: "0 < wss" and inv: "frame_inv wss (set (take i data)) (set_frame s) (size_c s)"
    and i: "i < length data" and ns: "INT_MIN \<notin> set (take i data)"
  shows "\<exists>s'. LRU_step wss data i s = Inr s'"
proof -
  from inv have len: "length (set_frame s) = wss" and sz: "size_c s \<le> wss"
    by (auto simp: frame_inv_def)
  show ?thesis
  proof (cases "data ! i \<in> set (set_frame s)")
    case True
    with i show ?thesis by (simp add: LRU_step_def arrayContains_full [OF len])
  next
    case miss: False
    show ?thesis
    proof (cases "size_c s = wss")
      case False
      with miss i len sz show ?thesis by (simp add: LRU_step_def arrayContains_full [OF len])
    next
      case True
      with inv have "set (set_frame s) \<subseteq> set (take i data)"
        by (intro frame_inv_full(3) [of wss _ _ "size_c s"]) simp_all
      with ns have "INT_MIN \<notin> set (set_frame s)" by blast
      from LRU_step_full_miss [OF wss inv i True miss this] show ?thesis by blast
    qed
  qed
qed

lemma LRU_total:
  assumes wss: "0 < wss" and ns: "INT_MIN \<notin> set (take n data)" and n: "n \<le> length data"
  shows "i \<le> n \<Longrightarrow> \<exists>s. LRU_iter wss data i = Inr s"
proof (induction i)
  case 0
  show ?case by simp
next
  case (Suc i)
  then obtain s where s: "LRU_iter wss data i = Inr s" by auto
  from LRU_reach [OF s] have inv: "frame_inv wss (set (take i data)) (set_frame s) (size_c s)"
    by simp
  from Suc.prems n have il: "i < length data" by simp
  have "set (take i data) \<subseteq> set (take n data)"
    using Suc.prems by (intro set_take_subset_set_take) simp
  with ns have "INT_MIN \<notin> set (take i data)" by blast
  from LRU_step_total [OF wss inv il this] s show ?case by simp
qed

lemma LRU_scan_body_sentinel:
  assumes len: "length fr = wss" and di: "distinct fr" and s: "INT_MIN \<in> set fr"
    and j: "j < length data" and inv: "scan_inv_sentinel fr wss ru c"
  shows "\<exists>ru' c'. LRU_scan_body fr wss data ru c j = Continue ru' c' \<and>
           scan_inv_sentinel fr wss ru' c'"
proof -
  let ?x = "data ! j"
  from inv have lr: "length ru = wss" and c: "c < wss"
    and dr: "drop c ru = replicate (wss - c) INT_MIN" and dt: "distinct (take c ru)"
    and sub: "set (take c ru) \<subseteq> set fr - {INT_MIN}"
    by (auto simp: scan_inv_sentinel_def)
  have "set ru = set (take c ru @ drop c ru)" by simp
  also have "\<dots> = set (take c ru) \<union> set (replicate (wss - c) INT_MIN)"
    unfolding dr by (rule set_append)
  also have "\<dots> = insert INT_MIN (set (take c ru))" using c by auto
  finally have rs: "set ru = insert INT_MIN (set (take c ru))" .
  show ?thesis
  proof (cases "?x \<in> set fr \<and> ?x \<notin> set ru")
    case False
    with j c have "LRU_scan_body fr wss data ru c j = Continue ru c"
      by (auto simp: LRU_scan_body_def arrayContains_full [OF len] arrayContains_full [OF lr])
    with inv show ?thesis by blast
  next
    case new: True
    with rs have xn: "?x \<noteq> INT_MIN" "?x \<notin> set (take c ru)" by auto
    have "card (insert ?x (set (take c ru))) = Suc c"
      using xn(2) dt c lr by (simp add: distinct_card)
    moreover have "card (insert ?x (set (take c ru))) \<le> card (set fr - {INT_MIN})"
      using sub new xn(1) by (intro card_mono) auto
    moreover have "card (set fr - {INT_MIN}) = wss - 1"
      using s di len by (simp add: distinct_card)
    ultimately have c': "c + 1 < wss" using c by simp
    with new j c lr have b: "LRU_scan_body fr wss data ru c j = Continue (ru[c := ?x]) (c + 1)"
      by (simp add: LRU_scan_body_def arrayContains_full [OF len] arrayContains_full [OF lr])
    have tk: "take (c + 1) (ru[c := ?x]) = take c ru @ [?x]"
      using c lr by (simp add: take_Suc_conv_app_nth)
    have "drop (c + 1) (ru[c := ?x]) = drop (Suc c) ru" by simp
    also have "\<dots> = tl (drop c ru)" by (simp add: drop_Suc tl_drop)
    also have "\<dots> = replicate (wss - (c + 1)) INT_MIN" by (simp add: dr)
    finally have dr': "drop (c + 1) (ru[c := ?x]) = replicate (wss - (c + 1)) INT_MIN" .
    have "scan_inv_sentinel fr wss (ru[c := ?x]) (c + 1)"
      unfolding scan_inv_sentinel_def tk dr' using new xn c' lr dt sub by auto
    with b show ?thesis by blast
  qed
qed

lemma LRU_scan_sentinel:
  assumes len: "length fr = wss" and di: "distinct fr" and s: "INT_MIN \<in> set fr"
  shows "j < length data \<Longrightarrow> scan_inv_sentinel fr wss ru c \<Longrightarrow>
           LRU_scan fr wss data ru c j = Inr None"
proof (induction j arbitrary: ru c)
  case 0
  from LRU_scan_body_sentinel [OF len di s "0.prems"] show ?case by auto
next
  case (Suc j)
  from LRU_scan_body_sentinel [OF len di s Suc.prems] obtain ru' c' where
    b: "LRU_scan_body fr wss data ru c (Suc j) = Continue ru' c'"
       "scan_inv_sentinel fr wss ru' c'"
    by blast
  from Suc.prems(1) have "j < length data" by simp
  from Suc.IH [OF this b(2)] b(1) show ?case by simp
qed

lemma LRU_step_sentinel_resident:
  assumes wss: "0 < wss" and inv: "frame_inv wss seen (set_frame s) (size_c s)"
    and i: "i < length data" and full: "size_c s = wss"
    and miss: "data ! i \<notin> set (set_frame s)" and sr: "INT_MIN \<in> set (set_frame s)"
  shows "LRU_scan (set_frame s) wss data (replicate wss INT_MIN) 0 i = Inr None"
    and "LRU_step wss data i s = Inl Uninitialised"
proof -
  from inv full have inv': "frame_inv wss seen (set_frame s) wss" by simp
  note fr = frame_inv_full [OF inv' refl]
  have "scan_inv_sentinel (set_frame s) wss (replicate wss INT_MIN) 0"
    using wss by (simp add: scan_inv_sentinel_def)
  from LRU_scan_sentinel [OF fr(1,2) sr i this]
  show sc: "LRU_scan (set_frame s) wss data (replicate wss INT_MIN) 0 i = Inr None" .
  show "LRU_step wss data i s = Inl Uninitialised"
    using i miss full sc by (simp add: LRU_step_def arrayContains_full [OF fr(1)])
qed

lemma LRU_victim_when_scan_breaks:
  assumes wss: "0 < wss" and reach: "LRU_iter wss data i = Inr s" and i: "i < length data"
    and full: "size_c s = wss" and miss: "\<not> arrayContains (set_frame s) wss (data ! i)"
  shows "(\<forall>v. LRU_scan (set_frame s) wss data (replicate wss INT_MIN) 0 i = Inr (Some v) \<longrightarrow>
            least_recently_used data i (set_frame s) v
            \<and> (\<exists>k < wss. set_frame s ! k = v
                 \<and> LRU_iter wss data (Suc i) =
                     Inr (s\<lparr>set_frame := (set_frame s)[k := data ! i], faults := faults s + 1\<rparr>)))
       \<and> (INT_MIN \<notin> set (set_frame s) \<longrightarrow>
            (\<exists>v. LRU_scan (set_frame s) wss data (replicate wss INT_MIN) 0 i = Inr (Some v)))"
proof (intro conjI allI impI)
  from LRU_reach [OF reach]
  have inv: "frame_inv wss (set (take i data)) (set_frame s) (size_c s)" by simp
  then have len: "length (set_frame s) = wss" by (simp add: frame_inv_def)
  from miss have miss': "data ! i \<notin> set (set_frame s)"
    by (simp add: arrayContains_full [OF len])
  have it: "LRU_iter wss data (Suc i) = LRU_step wss data i s" using reach by simp
  {
    assume ns: "INT_MIN \<notin> set (set_frame s)"
    from LRU_step_full_miss [OF wss inv i full miss' ns]
    show "\<exists>v. LRU_scan (set_frame s) wss data (replicate wss INT_MIN) 0 i = Inr (Some v)"
      by blast
  }
  fix v assume v: "LRU_scan (set_frame s) wss data (replicate wss INT_MIN) 0 i = Inr (Some v)"
  have ns: "INT_MIN \<notin> set (set_frame s)"
  proof
    assume "INT_MIN \<in> set (set_frame s)"
    from LRU_step_sentinel_resident(1) [OF wss inv i full miss' this] v show False by simp
  qed
  from LRU_step_full_miss [OF wss inv i full miss' ns] v it
  show "least_recently_used data i (set_frame s) v"
    and "\<exists>k < wss. set_frame s ! k = v
                 \<and> LRU_iter wss data (Suc i) =
                     Inr (s\<lparr>set_frame := (set_frame s)[k := data ! i], faults := faults s + 1\<rparr>)"
    by auto
qed

lemma last_ref_1: "last_ref [1, 2, 3, 4, INT_MIN, 5] 5 2 1"
  unfolding last_ref_def
proof (intro conjI ballI)
  fix m :: nat assume "m \<in> {1<..5}"
  then have "m = 2 \<or> m = 3 \<or> m = 4 \<or> m = 5" by auto
  then show "[1, 2, 3, 4, INT_MIN, 5] ! m \<noteq> 2" by (auto simp: INT_MIN_def)
qed simp_all

lemma last_ref_2: "last_ref [1, 2, 3, 4, INT_MIN, 5] 5 3 2"
  unfolding last_ref_def
proof (intro conjI ballI)
  fix m :: nat assume "m \<in> {2<..5}"
  then have "m = 3 \<or> m = 4 \<or> m = 5" by auto
  then show "[1, 2, 3, 4, INT_MIN, 5] ! m \<noteq> 3" by (auto simp: INT_MIN_def)
qed simp_all

lemma last_ref_3: "last_ref [1, 2, 3, 4, INT_MIN, 5] 5 4 3"
  unfolding last_ref_def
proof (intro conjI ballI)
  fix m :: nat assume "m \<in> {3<..5}"
  then have "m = 4 \<or> m = 5" by auto
  then show "[1, 2, 3, 4, INT_MIN, 5] ! m \<noteq> 4" by (auto simp: INT_MIN_def)
qed simp_all

lemma last_ref_4: "last_ref [1, 2, 3, 4, INT_MIN, 5] 5 INT_MIN 4"
  unfolding last_ref_def
proof (intro conjI ballI)
  fix m :: nat assume "m \<in> {4<..5}"
  then have "m = 5" by auto
  then show "[1, 2, 3, 4, INT_MIN, 5] ! m \<noteq> INT_MIN" by (auto simp: INT_MIN_def)
qed simp_all

lemma LRU_page_of_example:
  "least_recently_used [1, 2, 3, 4, INT_MIN, 5] 5 [INT_MIN, 2, 3, 4] 2"
proof -
  let ?t = "[1, 2, 3, 4, INT_MIN, 5]"
  have others: "\<forall>p \<in> set [INT_MIN, 2, 3, 4]. p \<noteq> 2 \<longrightarrow> (\<exists>k' \<in> {1<..5}. last_ref ?t 5 p k')"
  proof (intro ballI impI)
    fix p :: cint assume "p \<in> set [INT_MIN, 2, 3, 4]" "p \<noteq> 2"
    then consider "p = INT_MIN" | "p = 3" | "p = 4" by auto
    then show "\<exists>k' \<in> {1<..5}. last_ref ?t 5 p k'"
    proof cases
      case 1
      with last_ref_4 show ?thesis by (intro bexI [of _ 4]) simp_all
    next
      case 2
      with last_ref_2 show ?thesis by (intro bexI [of _ 2]) simp_all
    next
      case 3
      with last_ref_3 show ?thesis by (intro bexI [of _ 3]) simp_all
    qed
  qed
  have "\<exists>k \<in> {..5}. last_ref ?t 5 2 k \<and>
      (\<forall>p \<in> set [INT_MIN, 2, 3, 4]. p \<noteq> 2 \<longrightarrow> (\<exists>k' \<in> {k<..5}. last_ref ?t 5 p k'))"
    using last_ref_1 others by (intro bexI [of _ 1]) simp_all
  moreover have "2 \<in> set [INT_MIN, 2, 3, 4 :: cint]" by simp
  ultimately show ?thesis unfolding least_recently_used_def by (rule conjI [rotated])
qed

subsection \<open>Runs read the trace only\<close>

lemma take_eq_nth:
  assumes "take n d1 = take n d2" "j < n"
  shows "j < length d1 \<longleftrightarrow> j < length d2" and "d1 ! j = d2 ! j"
proof -
  have "length (take n d1) = length (take n d2)" using assms(1) by simp
  then show "j < length d1 \<longleftrightarrow> j < length d2" using assms(2) by auto
  have "take n d1 ! j = take n d2 ! j" using assms(1) by simp
  then show "d1 ! j = d2 ! j" using assms(2) by simp
qed

lemma FIFO_iter_prefix:
  "take n d1 = take n d2 \<Longrightarrow> i \<le> n \<Longrightarrow> FIFO_iter wss d1 i = FIFO_iter wss d2 i"
proof (induction i)
  case 0
  show ?case by simp
next
  case (Suc i)
  then have "i < n" by simp
  from take_eq_nth [OF Suc.prems(1) this] Suc show ?case by (simp split: sum.splits)
qed

lemma LRU_scan_body_prefix:
  assumes "take n d1 = take n d2" "j < n"
  shows "LRU_scan_body fr wss d1 ru c j = LRU_scan_body fr wss d2 ru c j"
  using take_eq_nth [OF assms] by (simp add: LRU_scan_body_def)

lemma LRU_scan_prefix:
  "take n d1 = take n d2 \<Longrightarrow> j < n \<Longrightarrow>
     LRU_scan fr wss d1 ru c j = LRU_scan fr wss d2 ru c j"
proof (induction j arbitrary: ru c)
  case 0
  then show ?case by (simp add: LRU_scan_body_prefix [of n d1 d2])
next
  case (Suc j)
  from Suc.prems have b: "LRU_scan_body fr wss d1 ru c (Suc j) = LRU_scan_body fr wss d2 ru c (Suc j)"
    by (rule LRU_scan_body_prefix)
  from Suc.prems have "j < n" by simp
  with Suc.IH Suc.prems(1) have "\<And>ru c. LRU_scan fr wss d1 ru c j = LRU_scan fr wss d2 ru c j"
    by blast
  with b show ?case by (simp split: scan_result.splits)
qed

lemma LRU_step_prefix:
  assumes "take n d1 = take n d2" "i < n"
  shows "LRU_step wss d1 i s = LRU_step wss d2 i s"
proof -
  note e = take_eq_nth [OF assms]
  have sc: "\<And>fr ru c. LRU_scan fr wss d1 ru c i = LRU_scan fr wss d2 ru c i"
    by (rule LRU_scan_prefix [OF assms])
  show ?thesis unfolding LRU_step_def e sc by (rule refl)
qed

lemma LRU_iter_prefix:
  "take n d1 = take n d2 \<Longrightarrow> i \<le> n \<Longrightarrow> LRU_iter wss d1 i = LRU_iter wss d2 i"
proof (induction i)
  case 0
  show ?case by simp
next
  case (Suc i)
  then have "i < n" by simp
  from LRU_step_prefix [OF Suc.prems(1) this] Suc show ?case by (simp split: sum.splits)
qed

subsection \<open>Errors stay, hits change nothing\<close>

lemma LRU_iter_error: "LRU_iter wss data i = Inl e \<Longrightarrow> LRU_iter wss data (i + k) = Inl e"
  by (induction k) simp_all

lemma FIFO_iter_hits:
  "FIFO_iter wss data n = Inr s \<Longrightarrow>
   (\<And>j. n \<le> j \<Longrightarrow> j < n + k \<Longrightarrow> j < length data \<and> arrayContains (set_frame s) wss (data ! j)) \<Longrightarrow>
   FIFO_iter wss data (n + k) = Inr s"
proof (induction k)
  case 0
  then show ?case by simp
next
  case (Suc k)
  from Suc.IH [OF Suc.prems(1)] Suc.prems(2) have "FIFO_iter wss data (n + k) = Inr s" by simp
  moreover from Suc.prems(2) [of "n + k"]
  have "n + k < length data" "arrayContains (set_frame s) wss (data ! (n + k))" by simp_all
  ultimately show ?case by (simp add: FIFO_step_def)
qed

lemma LRU_iter_hits:
  "LRU_iter wss data n = Inr s \<Longrightarrow>
   (\<And>j. n \<le> j \<Longrightarrow> j < n + k \<Longrightarrow> j < length data \<and> arrayContains (set_frame s) wss (data ! j)) \<Longrightarrow>
   LRU_iter wss data (n + k) = Inr s"
proof (induction k)
  case 0
  then show ?case by simp
next
  case (Suc k)
  from Suc.IH [OF Suc.prems(1)] Suc.prems(2) have "LRU_iter wss data (n + k) = Inr s" by simp
  moreover from Suc.prems(2) [of "n + k"]
  have "n + k < length data" "arrayContains (set_frame s) wss (data ! (n + k))" by simp_all
  ultimately show ?case by (simp add: LRU_step_def)
qed

lemma FIFO_example_padded:
  "FIFO 3 ([1, 2, 3, 4, 1, 2, 5, 1, 2, 3, 4, 5] @ replicate 988 5) = Inr 6"
proof -
  let ?t = "[1, 2, 3, 4, 1, 2, 5, 1, 2, 3, 4, 5 :: cint]"
  let ?s = "\<lparr>set_frame = [5, 3, 4], size_c = 3, faults = 6, fifoIndex = 0\<rparr>"
  have "FIFO_iter 3 ?t 12 = Inr ?s" by code_simp
  moreover have "FIFO_iter 3 (?t @ replicate 988 5) 12 = FIFO_iter 3 ?t 12"
    by (rule FIFO_iter_prefix [of 12]) simp_all
  ultimately have "FIFO_iter 3 (?t @ replicate 988 5) 12 = Inr ?s" by simp
  then have "FIFO_iter 3 (?t @ replicate 988 5) (12 + 988) = Inr ?s"
  proof (rule FIFO_iter_hits)
    fix j :: nat assume j: "12 \<le> j" "j < 12 + 988"
    then have "(?t @ replicate 988 5) ! j = 5" by (simp add: nth_append)
    with j show "j < length (?t @ replicate 988 5) \<and>
        arrayContains (set_frame ?s) 3 ((?t @ replicate 988 5) ! j)"
      by (simp add: arrayContains_iff)
  qed
  then show ?thesis by (simp add: FIFO_def FIFO_faults_def TRACES_def)
qed

lemma LRU_example_padded:
  "LRU 3 ([1, 2, 3, 4, 1, 2, 5, 1, 2, 3, 4, 5] @ replicate 988 5) = Inr 7"
proof -
  let ?t = "[1, 2, 3, 4, 1, 2, 5, 1, 2, 3, 4, 5 :: cint]"
  let ?s = "\<lparr>set_frame = [3, 4, 5], size_c = 3, faults = 7\<rparr>"
  have "LRU_iter 3 ?t 12 = Inr ?s" by code_simp
  moreover have "LRU_iter 3 (?t @ replicate 988 5) 12 = LRU_iter 3 ?t 12"
    by (rule LRU_iter_prefix [of 12]) simp_all
  ultimately have "LRU_iter 3 (?t @ replicate 988 5) 12 = Inr ?s" by simp
  then have "LRU_iter 3 (?t @ replicate 988 5) (12 + 988) = Inr ?s"
  proof (rule LRU_iter_hits)
    fix j :: nat assume j: "12 \<le> j" "j < 12 + 988"
    then have "(?t @ replicate 988 5) ! j = 5" by (simp add: nth_append)
    with j show "j < length (?t @ replicate 988 5) \<and>
        arrayContains (set_frame ?s) 3 ((?t @ replicate 988 5) ! j)"
      by (simp add: arrayContains_iff)
  qed
  then show ?thesis by (simp add: LRU_def LRU_faults_def TRACES_def)
qed

subsection \<open>Fault counts are bounded by the number of references\<close>

lemma FIFO_step_faults_le:
  assumes "FIFO_step wss x s = Inr s'"
  shows "faults s' \<le> faults s + 1"
proof (cases "arrayContains (set_frame s) wss x")
  case True
  with assms show ?thesis by (simp add: FIFO_step_def)
next
  case False
  show ?thesis
  proof (cases "size_c s = wss")
    case True
    with False assms show ?thesis
      by (cases "fifoIndex s < length (set_frame s)") (auto simp: FIFO_step_def)
  next
    case ns: False
    with False assms show ?thesis
      by (cases "size_c s < length (set_frame s)") (auto simp: FIFO_step_def)
  qed
qed

lemma FIFO_iter_faults_le: "FIFO_iter wss data i = Inr s \<Longrightarrow> faults s \<le> i"
proof (induction i arbitrary: s)
  case 0
  then show ?case by (auto simp: FIFO_init_def)
next
  case (Suc i)
  then obtain t where t: "FIFO_iter wss data i = Inr t" "FIFO_step wss (data ! i) t = Inr s"
    by (cases "FIFO_iter wss data i"; cases "i < length data") simp_all
  from Suc.IH [OF t(1)] FIFO_step_faults_le [OF t(2)] show ?case by simp
qed

lemma Clock_step_faults_le:
  assumes "Clock_step wss x s = Inr s'"
  shows "faults s' \<le> faults s + 1"
proof (cases "arrayContains (set_frame s) wss x")
  case True
  with assms show ?thesis
    by (cases "0 \<le> getIndex (set_frame s) wss x \<and>
               getIndex (set_frame s) wss x < int (length (secondChance s))")
       (auto simp: Clock_step_def Let_def)
next
  case False
  show ?thesis
  proof (cases "size_c s = wss")
    case ns: False
    with False assms show ?thesis
      by (cases "size_c s < length (set_frame s)") (auto simp: Clock_step_def)
  next
    case True
    show ?thesis
    proof (cases "Clock_sweep wss (secondChance s) (fifoIndex s) 0")
      case (Inl e)
      with True False assms show ?thesis by (simp add: Clock_step_def)
    next
      case (Inr r)
      obtain sc k n where r: "r = (sc, k, n)" by (cases r)
      with Inr True False assms show ?thesis
        by (cases "k < length (set_frame s)") (auto simp: Clock_step_def)
    qed
  qed
qed

lemma Clock_iter_faults_le: "Clock_iter wss data i = Inr s \<Longrightarrow> faults s \<le> i"
proof (induction i arbitrary: s)
  case 0
  then show ?case by (auto simp: Clock_init_def)
next
  case (Suc i)
  then obtain t where t: "Clock_iter wss data i = Inr t" "Clock_step wss (data ! i) t = Inr s"
    by (cases "Clock_iter wss data i"; cases "i < length data") simp_all
  from Suc.IH [OF t(1)] Clock_step_faults_le [OF t(2)] show ?case by simp
qed

lemma LRU_step_faults_le:
  assumes "LRU_step wss data i s = Inr s'"
  shows "faults s' \<le> faults s + 1"
proof -
  from assms have il: "i < length data"
    by (cases "i < length data") (simp_all add: LRU_step_def)
  show ?thesis
  proof (cases "arrayContains (set_frame s) wss (data ! i)")
    case True
    with assms il show ?thesis by (simp add: LRU_step_def)
  next
    case False
    show ?thesis
    proof (cases "size_c s = wss")
      case ns: False
      with False assms il show ?thesis
        by (cases "size_c s < length (set_frame s)") (auto simp: LRU_step_def)
    next
      case True
      let ?scan = "LRU_scan (set_frame s) wss data (replicate wss INT_MIN) 0 i"
      from assms il False True have step: "(case ?scan of
             Inl e \<Rightarrow> Inl e
           | Inr None \<Rightarrow> Inl Uninitialised
           | Inr (Some lru) \<Rightarrow>
               (let c = getIndex (set_frame s) wss lru in
                if 0 \<le> c \<and> c < int (length (set_frame s))
                then Inr (s\<lparr>set_frame := (set_frame s)[nat c := data ! i],
                           faults := faults s + 1\<rparr>)
                else Inl OutOfBounds)) = Inr s'"
        by (simp add: LRU_step_def)
      then obtain lru where lru: "?scan = Inr (Some lru)"
        by (cases ?scan) (auto split: option.splits)
      from step have "s' = s\<lparr>set_frame := (set_frame s)[nat (getIndex (set_frame s) wss lru) := data ! i],
          faults := faults s + 1\<rparr>"
        unfolding lru by (simp add: Let_def split: if_splits)
      then show ?thesis by simp
    qed
  qed
qed

lemma LRU_iter_faults_le: "LRU_iter wss data i = Inr s \<Longrightarrow> faults s \<le> i"
proof (induction i arbitrary: s)
  case 0
  then show ?case by (auto simp: LRU_init_def)
next
  case (Suc i)
  then obtain t where t: "LRU_iter wss data i = Inr t" "LRU_step wss data i t = Inr s"
    by (cases "LRU_iter wss data i") simp_all
  from Suc.IH [OF t(1)] LRU_step_faults_le [OF t(2)] show ?case by simp
qed

lemma LRU_faults_bounded: "LRU_faults n wss data = Inr f \<Longrightarrow> f \<le> n"
  using LRU_iter_faults_le [of wss data n]
  by (cases "LRU_iter wss data n") (auto simp: LRU_faults_def)

lemma FIFO_faults_bounded: "FIFO_faults n wss data = Inr f \<Longrightarrow> f \<le> n"
  using FIFO_iter_faults_le [of wss data n]
  by (cases "FIFO_iter wss data n") (auto simp: FIFO_faults_def)

lemma Clock_faults_bounded: "Clock_faults n wss data = Inr f \<Longrightarrow> f \<le> n"
  using Clock_iter_faults_le [of wss data n]
  by (cases "Clock_iter wss data n") (auto simp: Clock_faults_def)

subsection \<open>Averaging\<close>

lemma accumulate_sum: "accumulate acc fs = acc + of_nat (sum_list fs)"
  unfolding accumulate_def by (induction fs arbitrary: acc) (simp_all add: algebra_simps)

lemma sint_word_of_int_small:
  "- (2 ^ 31) \<le> k \<Longrightarrow> k < 2 ^ 31 \<Longrightarrow> sint (word_of_int k :: cint) = k"
  by (simp add: sint_sbintrunc' signed_take_bit_int_eq_self)

lemma sint_of_nat_small: "m < 2 ^ 31 \<Longrightarrow> sint (of_nat m :: cint) = int m"
  using sint_word_of_int_small [of "int m"] by simp

lemma sdiv_nonneg: "0 \<le> (a::int) \<Longrightarrow> 0 < b \<Longrightarrow> a sdiv b = a div b"
  by (simp add: signed_divide_int_def sgn_if)

lemma average_floor:
  assumes "sum_list fs < 2 ^ 31" "0 < n" "n < 2 ^ 31"
  shows "sint (average (accumulate 0 fs) (of_nat n)) = int (sum_list fs) div int n"
proof -
  have a: "sint (accumulate 0 fs) = int (sum_list fs)"
    using assms(1) by (simp add: accumulate_sum sint_of_nat_small)
  have b: "sint (of_nat n :: cint) = int n"
    using assms(3) by (simp add: sint_of_nat_small)
  have c: "int (sum_list fs) sdiv int n = int (sum_list fs) div int n"
    using assms(2) by (simp add: sdiv_nonneg)
  have "int (sum_list fs) div int n \<le> int (sum_list fs)"
    using assms(2) by (simp add: div_le_dividend flip: zdiv_int)
  moreover have "0 \<le> int (sum_list fs) div int n"
    by (simp add: pos_imp_zdiv_nonneg_iff assms(2))
  ultimately have "sint (word_of_int (int (sum_list fs) div int n) :: cint) = int (sum_list fs) div int n"
    using assms(1) by (intro sint_word_of_int_small) auto
  then show ?thesis by (simp add: average_def a b c)
qed

lemma sum_list_bounded: "\<forall>f \<in> set fs. f \<le> (b::nat) \<Longrightarrow> sum_list fs \<le> length fs * b"
  by (induction fs) auto

lemma driver_sum_in_range:
  assumes "length fs = TRACES" "\<forall>f \<in> set fs. f \<le> TRACES"
  shows "sum_list fs < 2 ^ 31"
proof -
  from sum_list_bounded [OF assms(2)] assms(1) have "sum_list fs \<le> 1000 * 1000"
    by (simp add: TRACES_def)
  then show ?thesis by simp
qed

section \<open>Properties\<close>

text \<open>
  C1 (as amended). For every frame size \<open>wss \<ge> 1\<close> and every trace whose number of
  distinct page identifiers is at most \<open>wss\<close>, each of LRU, FIFO and Clock returns the
  fault count 0: a miss that finds a free slot occupies it and is not counted, and the
  branch that counts a fault (miss with a full frame) is never taken.
\<close>

theorem no_faults_when_pages_fit:
  assumes "0 < wss" "n \<le> length data" "card (set (take n data)) \<le> wss"
  shows "LRU_faults n wss data = Inr 0 \<and> FIFO_faults n wss data = Inr 0
       \<and> Clock_faults n wss data = Inr 0"
  using assms by (simp add: LRU_faults_zero FIFO_faults_zero Clock_faults_zero)

theorem no_faults_when_pages_fit_witness:
  "LRU_faults 5 3 [1, 2, 3, 2, 1] = Inr 0 \<and> FIFO_faults 5 3 [1, 2, 3, 2, 1] = Inr 0
       \<and> Clock_faults 5 3 [1, 2, 3, 2, 1] = Inr 0"
proof -
  have "card (set (take 5 [1, 2, 3, 2, 1 :: cint])) \<le> 3"
    by (simp add: card_insert_if)
  from no_faults_when_pages_fit [OF _ _ this] show ?thesis by simp
qed

text \<open>
  C1 as stated fails: on the array of \<^verbatim>\<open>TRACES\<close> references to page 7 with a frame of one
  slot, the trace has one distinct page and every policy returns 0, not 1.
\<close>

theorem compulsory_misses_not_counted:
  "card (set (replicate 1000 (7 :: cint))) = 1 \<and> LRU 1 (replicate 1000 7) = Inr 0
   \<and> FIFO 1 (replicate 1000 7) = Inr 0 \<and> Clock 1 (replicate 1000 7) = Inr 0"
  by (simp add: LRU_def FIFO_def Clock_def TRACES_def
      LRU_faults_zero FIFO_faults_zero Clock_faults_zero)

text \<open>
  C2 fails on the code. With four slots and the references 1, 2, 3, 4, \<^verbatim>\<open>INT_MIN\<close>, 5:
  the fifth reference misses on the full frame and replaces page 1 by the sentinel
  value. The sixth (position 5) misses on the full frame that holds \<^verbatim>\<open>INT_MIN\<close>, 2, 3, 4;
  the resident page whose most recent reference is oldest is page 2, and the property
  asks that its slot be overwritten with 5 and the fault count go up. The scan records
  4, 3 and 2 but never the resident \<^verbatim>\<open>INT_MIN\<close>, which equals the initial content of the
  recency array; \<open>c\<close> stops at 3, the scan runs past index 0 without \<^verbatim>\<open>break\<close>, and the
  step ends in the read of the unassigned \<^verbatim>\<open>lru\<close>: no slot is overwritten and no fault
  is counted.
\<close>

theorem LRU_victim_not_evicted:
  "LRU_iter 4 [1, 2, 3, 4, INT_MIN, 5] 5 =
     Inr \<lparr>set_frame = [INT_MIN, 2, 3, 4], size_c = 4, faults = 1\<rparr>
   \<and> \<not> arrayContains [INT_MIN, 2, 3, 4] 4 5
   \<and> least_recently_used [1, 2, 3, 4, INT_MIN, 5] 5 [INT_MIN, 2, 3, 4] 2
   \<and> LRU_scan [INT_MIN, 2, 3, 4] 4 [1, 2, 3, 4, INT_MIN, 5] (replicate 4 INT_MIN) 0 5 = Inr None
   \<and> LRU_iter 4 [1, 2, 3, 4, INT_MIN, 5] 6 = Inl Uninitialised
   \<and> LRU 4 ([1, 2, 3, 4, INT_MIN, 5] @ replicate 994 5) = Inl Uninitialised"
proof -
  let ?t = "[1, 2, 3, 4, INT_MIN, 5]"
  have a: "LRU_iter 4 ?t 5 = Inr \<lparr>set_frame = [INT_MIN, 2, 3, 4], size_c = 4, faults = 1\<rparr>"
    by code_simp
  have b: "\<not> arrayContains [INT_MIN, 2, 3, 4] 4 5" by code_simp
  have c: "least_recently_used ?t 5 [INT_MIN, 2, 3, 4] 2" by (rule LRU_page_of_example)
  have d: "LRU_scan [INT_MIN, 2, 3, 4] 4 ?t (replicate 4 INT_MIN) 0 5 = Inr None" by code_simp
  have e: "LRU_iter 4 ?t 6 = Inl Uninitialised" by code_simp
  have "LRU_iter 4 (?t @ replicate 994 5) 6 = LRU_iter 4 ?t 6"
    by (rule LRU_iter_prefix [of 6]) simp_all
  with e have "LRU_iter 4 (?t @ replicate 994 5) 6 = Inl Uninitialised" by simp
  from LRU_iter_error [OF this, of 994]
  have f: "LRU 4 (?t @ replicate 994 5) = Inl Uninitialised"
    by (simp add: LRU_def LRU_faults_def TRACES_def)
  from a b c d e f show ?thesis by simp
qed

theorem LRU_victim_not_evicted_witness:
  "least_recently_used [1, 2, 3, 4, INT_MIN, 5] 5 [INT_MIN, 2, 3, 4] 2
   \<and> LRU_iter 4 [1, 2, 3, 4, INT_MIN, 5] 6 = Inl Uninitialised"
  using LRU_victim_not_evicted by simp

text \<open>
  C3. On the trace 1,2,3,4,1,2,5,1,2,3,4,5 with a frame of three slots, FIFO counts
  exactly 6 faults when the main loop runs over the twelve references, and so does the
  function of the source (loop bound \<^verbatim>\<open>TRACES\<close>) on an array that holds the trace followed
  by repetitions of its last reference.
\<close>

theorem FIFO_example_six_faults:
  "FIFO_faults 12 3 [1, 2, 3, 4, 1, 2, 5, 1, 2, 3, 4, 5] = Inr 6
   \<and> FIFO 3 ([1, 2, 3, 4, 1, 2, 5, 1, 2, 3, 4, 5] @ replicate 988 5) = Inr 6"
proof
  show "FIFO_faults 12 3 [1, 2, 3, 4, 1, 2, 5, 1, 2, 3, 4, 5] = Inr 6" by code_simp
  show "FIFO 3 ([1, 2, 3, 4, 1, 2, 5, 1, 2, 3, 4, 5] @ replicate 988 5) = Inr 6"
    by (rule FIFO_example_padded)
qed

text \<open>
  C4. For \<open>wss \<ge> 1\<close>, at every miss with a full frame that a run of Clock reaches, the
  eviction sweep returns after at most \<open>wss\<close> iterations with the hand on a slot whose
  use bit is 0; when the bit of the slot the hand starts on is unset the sweep makes no
  iteration and that slot is the one evicted.
\<close>

theorem Clock_sweep_terminates:
  assumes wss: "0 < wss" and i: "i \<le> length data" and reach: "Clock_iter wss data i = Inr s"
    and full: "size_c s = wss" and miss: "\<not> arrayContains (set_frame s) wss x"
  shows "\<exists>sc k n. Clock_sweep wss (secondChance s) (fifoIndex s) 0 = Inr (sc, k, n)
           \<and> n \<le> wss \<and> k < wss \<and> sc ! k = 0
           \<and> (secondChance s ! fifoIndex s = 0 \<longrightarrow> n = 0 \<and> k = fifoIndex s \<and> sc = secondChance s)
           \<and> Clock_step wss x s =
               Inr (s\<lparr>set_frame := (set_frame s)[k := x], faults := faults s + 1,
                      fifoIndex := (if k + 1 = wss then 0 else k + 1), secondChance := sc\<rparr>)"
proof -
  from Clock_reach [OF wss i] reach
  have inv: "frame_inv wss (set (take i data)) (set_frame s) (size_c s)"
    and idx: "fifoIndex s < wss" and bits: "length (secondChance s) = wss" by simp_all
  from inv have len: "length (set_frame s) = wss" by (simp add: frame_inv_def)
  from idx bits have k: "fifoIndex s < length (secondChance s)" by simp
  from Clock_sweep_bound [OF k bits] obtain sc k n where
    r: "Clock_sweep wss (secondChance s) (fifoIndex s) 0 = Inr (sc, k, n)"
       "length sc = wss" "k < wss" "sc ! k = 0" "n \<le> wss"
    by blast
  have imm: "secondChance s ! fifoIndex s = 0 \<longrightarrow> n = 0 \<and> k = fifoIndex s \<and> sc = secondChance s"
    using Clock_sweep_unset [OF k, of wss 0] r(1) by auto
  have "Clock_step wss x s =
               Inr (s\<lparr>set_frame := (set_frame s)[k := x], faults := faults s + 1,
                      fifoIndex := (if k + 1 = wss then 0 else k + 1), secondChance := sc\<rparr>)"
    using full miss r(1,3) len by (simp add: Clock_step_def)
  with r imm show ?thesis by blast
qed

theorem Clock_sweep_terminates_witness:
  "\<exists>sc k n. Clock_sweep 3 [1, 0, 0] 0 0 = Inr (sc, k, n) \<and> n \<le> 3 \<and> k < 3 \<and> sc ! k = 0
     \<and> Clock_step 3 4 \<lparr>set_frame = [1, 2, 3], size_c = 3, faults = 0, fifoIndex = 0,
            secondChance = [1, 0, 0]\<rparr> =
         Inr \<lparr>set_frame = [1, 2, 3][k := 4], size_c = 3, faults = 1,
              fifoIndex = (if k + 1 = 3 then 0 else k + 1), secondChance = sc\<rparr>"
proof -
  have r: "Clock_iter 3 [1, 2, 3, 1, 4] 4 =
      Inr \<lparr>set_frame = [1, 2, 3], size_c = 3, faults = 0, fifoIndex = 0,
           secondChance = [1, 0, 0]\<rparr>"
    by code_simp
  have m: "\<not> arrayContains (set_frame \<lparr>set_frame = [1, 2, 3], size_c = 3, faults = 0, fifoIndex = 0,
           secondChance = [1, 0, 0]\<rparr>) 3 4"
    by (simp add: arrayContains_iff)
  from Clock_sweep_terminates [OF _ _ r _ m] show ?thesis by simp
qed

text \<open>
  C5 fails on the code. With one slot and the references 1, \<^verbatim>\<open>INT_MIN\<close>, 2: the second
  reference misses on a full frame and replaces page 1 by the sentinel value; the third
  misses again, and now the only resident page is equal to the initial content of the
  recency array, so it is never appended, \<open>c\<close> stays 0, the scan runs past index 0
  without \<^verbatim>\<open>break\<close>, and \<^verbatim>\<open>lru\<close> is read without having been assigned.
\<close>

theorem LRU_scan_runs_past_start:
  "LRU_iter 1 [1, INT_MIN, 2] 2 = Inr \<lparr>set_frame = [INT_MIN], size_c = 1, faults = 1\<rparr>
   \<and> \<not> arrayContains [INT_MIN] 1 2
   \<and> LRU_scan [INT_MIN] 1 [1, INT_MIN, 2] (replicate 1 INT_MIN) 0 2 = Inr None
   \<and> LRU_faults 3 1 [1, INT_MIN, 2] = Inl Uninitialised
   \<and> LRU 1 ([1, INT_MIN, 2] @ replicate 997 2) = Inl Uninitialised"
proof -
  let ?t = "[1, INT_MIN, 2]"
  have a: "LRU_iter 1 ?t 2 = Inr \<lparr>set_frame = [INT_MIN], size_c = 1, faults = 1\<rparr>"
    by code_simp
  have b: "\<not> arrayContains [INT_MIN] 1 2" by code_simp
  have c: "LRU_scan [INT_MIN] 1 ?t (replicate 1 INT_MIN) 0 2 = Inr None" by code_simp
  have d: "LRU_iter 1 ?t 3 = Inl Uninitialised" by code_simp
  have "LRU_iter 1 (?t @ replicate 997 2) 3 = LRU_iter 1 ?t 3"
    by (rule LRU_iter_prefix [of 3]) simp_all
  with d have "LRU_iter 1 (?t @ replicate 997 2) 3 = Inl Uninitialised" by simp
  from LRU_iter_error [OF this, of 997]
  have e: "LRU 1 (?t @ replicate 997 2) = Inl Uninitialised"
    by (simp add: LRU_def LRU_faults_def TRACES_def)
  from d have "LRU_faults 3 1 ?t = Inl Uninitialised" by (simp add: LRU_faults_def)
  with a b c e show ?thesis by simp
qed

text \<open>
  C6. For \<open>wss \<ge> 1\<close>, after any number of references the frame of each policy has at most
  \<open>wss\<close> occupied slots and no page in two of them, and the fill count \<^verbatim>\<open>size\<close> is at most
  \<open>wss\<close>: FIFO and Clock reach every step and the invariant holds there; it holds at
  every step that LRU reaches, and LRU reaches every step of a trace without the
  sentinel value.
\<close>

theorem frame_invariant_preserved:
  assumes wss: "0 < wss" and i: "i \<le> length data"
  shows "(\<exists>s. FIFO_iter wss data i = Inr s \<and> frame_invariant wss (set_frame s) \<and> size_c s \<le> wss)
       \<and> (\<exists>s. Clock_iter wss data i = Inr s \<and> frame_invariant wss (set_frame s) \<and> size_c s \<le> wss)
       \<and> (\<forall>s. LRU_iter wss data i = Inr s \<longrightarrow> frame_invariant wss (set_frame s) \<and> size_c s \<le> wss)
       \<and> (INT_MIN \<notin> set (take i data) \<longrightarrow> (\<exists>s. LRU_iter wss data i = Inr s))"
proof (intro conjI allI impI)
  from FIFO_reach [OF wss i] obtain s where
    s: "FIFO_iter wss data i = Inr s" "frame_inv wss (set (take i data)) (set_frame s) (size_c s)"
    by blast
  from s(2) have "frame_invariant wss (set_frame s)" "size_c s \<le> wss"
    by (simp_all add: frame_inv_invariant frame_inv_size)
  with s(1) show "\<exists>s. FIFO_iter wss data i = Inr s \<and> frame_invariant wss (set_frame s) \<and> size_c s \<le> wss"
    by blast
next
  from Clock_reach [OF wss i] obtain s where
    s: "Clock_iter wss data i = Inr s" "frame_inv wss (set (take i data)) (set_frame s) (size_c s)"
    by blast
  from s(2) have "frame_invariant wss (set_frame s)" "size_c s \<le> wss"
    by (simp_all add: frame_inv_invariant frame_inv_size)
  with s(1) show "\<exists>s. Clock_iter wss data i = Inr s \<and> frame_invariant wss (set_frame s) \<and> size_c s \<le> wss"
    by blast
next
  fix s assume "LRU_iter wss data i = Inr s"
  from LRU_reach [OF this]
  have inv: "frame_inv wss (set (take i data)) (set_frame s) (size_c s)" by simp
  from inv show "frame_invariant wss (set_frame s)" by (rule frame_inv_invariant)
  from inv show "size_c s \<le> wss" by (rule frame_inv_size)
next
  assume "INT_MIN \<notin> set (take i data)"
  from LRU_total [OF wss this i] show "\<exists>s. LRU_iter wss data i = Inr s" by simp
qed

theorem frame_invariant_preserved_witness:
  "(\<exists>s. FIFO_iter 2 [1, 2, 3, 1] 4 = Inr s \<and> frame_invariant 2 (set_frame s) \<and> size_c s \<le> 2)
   \<and> (\<exists>s. Clock_iter 2 [1, 2, 3, 1] 4 = Inr s \<and> frame_invariant 2 (set_frame s) \<and> size_c s \<le> 2)
   \<and> (\<exists>s. LRU_iter 2 [1, 2, 3, 1] 4 = Inr s \<and> frame_invariant 2 (set_frame s) \<and> size_c s \<le> 2)"
proof -
  have "INT_MIN \<notin> set (take 4 [1, 2, 3, 1 :: cint])" by (simp add: INT_MIN_def)
  with frame_invariant_preserved [of 2 4 "[1, 2, 3, 1]"] show ?thesis by auto
qed

text \<open>
  C8. For every accumulated sum of fault counts and every number of trials (at least
  one trial, both within the range of \<^verbatim>\<open>int\<close>), the average that \<^verbatim>\<open>main\<close> computes is the
  floor of the sum divided by the number of trials. In the configuration of the source,
  \<^verbatim>\<open>TRACES\<close> trials of at most \<^verbatim>\<open>TRACES\<close> faults each, the sum is always within range.
\<close>

theorem average_is_floor:
  "(sum_list fs < 2 ^ 31 \<and> 0 < n \<and> n < 2 ^ 31 \<longrightarrow>
      sint (average (accumulate 0 fs) (of_nat n)) = int (sum_list fs) div int n)
   \<and> (length fs = TRACES \<and> (\<forall>f \<in> set fs. f \<le> TRACES) \<longrightarrow>
      sint (average (accumulate 0 fs) (of_nat TRACES)) = int (sum_list fs) div int TRACES)"
proof (intro conjI impI)
  assume "sum_list fs < 2 ^ 31 \<and> 0 < n \<and> n < 2 ^ 31"
  then show "sint (average (accumulate 0 fs) (of_nat n)) = int (sum_list fs) div int n"
    by (intro average_floor) simp_all
next
  assume a: "length fs = TRACES \<and> (\<forall>f \<in> set fs. f \<le> TRACES)"
  then have "sum_list fs < 2 ^ 31" by (intro driver_sum_in_range) simp_all
  moreover have "0 < TRACES" "TRACES < 2 ^ 31" by (simp_all add: TRACES_def)
  ultimately show "sint (average (accumulate 0 fs) (of_nat TRACES))
      = int (sum_list fs) div int TRACES"
    by (rule average_floor)
qed

theorem average_is_floor_witness:
  "sint (average (accumulate 0 [7, 6, 7]) (of_nat 3)) = 6"
  using average_is_floor [of "[7, 6, 7]" 3] by simp

text \<open>
  C9 fails on the code for LRU. With two slots and the references 1, 2, \<^verbatim>\<open>INT_MIN\<close>, 3,
  \<^verbatim>\<open>INT_MIN\<close>: the miss at position 3 finds the frame full with \<^verbatim>\<open>INT_MIN\<close> and 2, the scan
  runs past index 0 without \<^verbatim>\<open>break\<close>, and the slot to overwrite is chosen by the value
  that the unassigned \<^verbatim>\<open>lru\<close> happens to hold, which is no function of \<open>wss\<close> and the
  trace. FIFO and Clock return 2 on the same input.
\<close>

theorem LRU_result_not_determined:
  "LRU_iter 2 [1, 2, INT_MIN, 3, INT_MIN] 3 =
     Inr \<lparr>set_frame = [INT_MIN, 2], size_c = 2, faults = 1\<rparr>
   \<and> \<not> arrayContains [INT_MIN, 2] 2 3
   \<and> LRU_scan [INT_MIN, 2] 2 [1, 2, INT_MIN, 3, INT_MIN] (replicate 2 INT_MIN) 0 3 = Inr None
   \<and> LRU_faults 5 2 [1, 2, INT_MIN, 3, INT_MIN] = Inl Uninitialised
   \<and> LRU 2 ([1, 2, INT_MIN, 3, INT_MIN] @ replicate 995 3) = Inl Uninitialised
   \<and> FIFO_faults 5 2 [1, 2, INT_MIN, 3, INT_MIN] = Inr 2
   \<and> Clock_faults 5 2 [1, 2, INT_MIN, 3, INT_MIN] = Inr 2"
proof -
  let ?t = "[1, 2, INT_MIN, 3, INT_MIN]"
  have a: "LRU_iter 2 ?t 3 = Inr \<lparr>set_frame = [INT_MIN, 2], size_c = 2, faults = 1\<rparr>"
    by code_simp
  have b: "\<not> arrayContains [INT_MIN, 2] 2 3" by code_simp
  have c: "LRU_scan [INT_MIN, 2] 2 ?t (replicate 2 INT_MIN) 0 3 = Inr None" by code_simp
  have d: "LRU_iter 2 ?t 4 = Inl Uninitialised" by code_simp
  from LRU_iter_error [OF d, of 1] have e: "LRU_faults 5 2 ?t = Inl Uninitialised"
    by (simp add: LRU_faults_def)
  have "LRU_iter 2 (?t @ replicate 995 3) 4 = LRU_iter 2 ?t 4"
    by (rule LRU_iter_prefix [of 4]) simp_all
  with d have "LRU_iter 2 (?t @ replicate 995 3) 4 = Inl Uninitialised" by simp
  from LRU_iter_error [OF this, of 996]
  have f: "LRU 2 (?t @ replicate 995 3) = Inl Uninitialised"
    by (simp add: LRU_def LRU_faults_def TRACES_def)
  have g: "FIFO_faults 5 2 ?t = Inr 2" by code_simp
  have h: "Clock_faults 5 2 ?t = Inr 2" by code_simp
  from a b c e f g h show ?thesis by simp
qed

text \<open>
  C10. When the reference at position \<open>i\<close> is the sentinel \<^verbatim>\<open>INT_MIN\<close> and the frame still
  has a free slot, every policy treats it as a hit: LRU and FIFO leave their state as it
  is (no fault, no slot occupied), and Clock only sets the use bit of the first free
  slot, which is slot \<^verbatim>\<open>size\<close>.
\<close>

theorem sentinel_reference_is_hit:
  assumes wss: "0 < wss" and i: "i < length data" and x: "data ! i = INT_MIN"
  shows "(\<forall>s. LRU_iter wss data i = Inr s \<and> size_c s < wss \<longrightarrow>
            LRU_iter wss data (Suc i) = Inr s)
       \<and> (\<forall>s. FIFO_iter wss data i = Inr s \<and> size_c s < wss \<longrightarrow>
            FIFO_iter wss data (Suc i) = Inr s)
       \<and> (\<forall>s. Clock_iter wss data i = Inr s \<and> size_c s < wss \<longrightarrow>
            Clock_iter wss data (Suc i) = Inr (s\<lparr>secondChance := (secondChance s)[size_c s := 1]\<rparr>)
            \<and> set_frame s ! size_c s = INT_MIN
            \<and> (\<forall>k < size_c s. set_frame s ! k \<noteq> INT_MIN))"
proof (intro conjI allI impI)
  fix s assume a: "LRU_iter wss data i = Inr s \<and> size_c s < wss"
  from LRU_reach [of wss data i s] a
  have inv: "frame_inv wss (set (take i data)) (set_frame s) (size_c s)" by simp
  then have len: "length (set_frame s) = wss" by (simp add: frame_inv_def)
  from frame_inv_slots(3) [OF inv] a have "INT_MIN \<in> set (set_frame s)" by simp
  then have "LRU_step wss data i s = Inr s"
    using i x by (simp add: LRU_step_def arrayContains_full [OF len])
  with a show "LRU_iter wss data (Suc i) = Inr s" by simp
next
  fix s assume a: "FIFO_iter wss data i = Inr s \<and> size_c s < wss"
  from FIFO_reach [OF wss, of i data] i a
  have inv: "frame_inv wss (set (take i data)) (set_frame s) (size_c s)" by simp
  then have len: "length (set_frame s) = wss" by (simp add: frame_inv_def)
  from frame_inv_slots(3) [OF inv] a have "INT_MIN \<in> set (set_frame s)" by simp
  then have "FIFO_step wss INT_MIN s = Inr s"
    by (simp add: FIFO_step_def arrayContains_full [OF len])
  with a i x show "FIFO_iter wss data (Suc i) = Inr s" by simp
next
  fix s assume a: "Clock_iter wss data i = Inr s \<and> size_c s < wss"
  from Clock_reach [OF wss, of i data] i a
  have inv: "frame_inv wss (set (take i data)) (set_frame s) (size_c s)"
    and bits: "length (secondChance s) = wss" by simp_all
  then have len: "length (set_frame s) = wss" by (simp add: frame_inv_def)
  from a have room: "size_c s < wss" by simp
  note slots = frame_inv_slots [OF inv room]
  from slots(1) show "set_frame s ! size_c s = INT_MIN" .
  from slots(2) show "\<And>k. k < size_c s \<Longrightarrow> set_frame s ! k \<noteq> INT_MIN" by simp
  have "getIndex (set_frame s) wss INT_MIN = int (size_c s)"
    using room len slots(1,2) by (intro getIndex_first) simp_all
  then have "Clock_step wss INT_MIN s = Inr (s\<lparr>secondChance := (secondChance s)[size_c s := 1]\<rparr>)"
    using slots(3) room bits by (simp add: Clock_step_def arrayContains_full [OF len])
  with a i x show "Clock_iter wss data (Suc i) =
      Inr (s\<lparr>secondChance := (secondChance s)[size_c s := 1]\<rparr>)" by simp
qed

theorem sentinel_reference_is_hit_witness:
  "LRU_iter 3 [1, INT_MIN, 2] 2 = Inr \<lparr>set_frame = [1, INT_MIN, INT_MIN], size_c = 1, faults = 0\<rparr>
   \<and> FIFO_iter 3 [1, INT_MIN, 2] 2 =
       Inr \<lparr>set_frame = [1, INT_MIN, INT_MIN], size_c = 1, faults = 0, fifoIndex = 0\<rparr>
   \<and> Clock_iter 3 [1, INT_MIN, 2] 2 =
       Inr \<lparr>set_frame = [1, INT_MIN, INT_MIN], size_c = 1, faults = 0, fifoIndex = 0,
            secondChance = [0, 1, 0]\<rparr>"
proof -
  have l: "LRU_iter 3 [1, INT_MIN, 2] 1 =
      Inr \<lparr>set_frame = [1, INT_MIN, INT_MIN], size_c = 1, faults = 0\<rparr>"
    by code_simp
  have f: "FIFO_iter 3 [1, INT_MIN, 2] 1 =
      Inr \<lparr>set_frame = [1, INT_MIN, INT_MIN], size_c = 1, faults = 0, fifoIndex = 0\<rparr>"
    by code_simp
  have c: "Clock_iter 3 [1, INT_MIN, 2] 1 =
       Inr \<lparr>set_frame = [1, INT_MIN, INT_MIN], size_c = 1, faults = 0, fifoIndex = 0,
            secondChance = [0, 0, 0]\<rparr>"
    by code_simp
  have h: "(0::nat) < 3" "1 < length [1, INT_MIN, 2 :: cint]" "[1, INT_MIN, 2 :: cint] ! 1 = INT_MIN"
    by simp_all
  from sentinel_reference_is_hit [OF h] l f c show ?thesis
    by (simp add: numeral_2_eq_2)
qed

end
